theory Spec2Isabelle
  imports Main "HOL-Library.Char_ord" "HOL-Library.List_Lexorder"
begin

section \<open>glenn2vcf: data model\<close>

text \<open>
  The program is a single translation unit, \<^verbatim>\<open>main.cpp\<close>. Its \<^verbatim>\<open>main\<close> runs four
  phases over tables it builds itself: tracing the reference path, parsing the call file,
  the pass over non-reference nodes and the pass over reference nodes. Each phase is
  embedded as a function of its own, named after the variables of \<^verbatim>\<open>main\<close> it computes.

  Every \<^verbatim>\<open>assert\<close>, every uncaught exception and every read outside a container ends the
  run; the embedding returns them as values of the type \<open>fatal\<close>.
\<close>

datatype fatal =
    NoReferencePath            \<comment> \<open>\<^verbatim>\<open>assert(vg.paths.has_path(refPathName))\<close>\<close>
  | MappingNotPerfectMatch     \<comment> \<open>\<^verbatim>\<open>assert(mapping_is_perfect_match(mapping))\<close>\<close>
  | NoSuchNode                 \<comment> \<open>a node pointer that points at no node of the graph\<close>
  | AltTokenSize               \<comment> \<open>\<^verbatim>\<open>assert(alt.size() == 1)\<close>\<close>
  | TooManyAlts                \<comment> \<open>\<^verbatim>\<open>assert(numberOfAlts < MAX_ALTS)\<close>\<close>
  | ResizeFailed               \<comment> \<open>\<^verbatim>\<open>resize\<close> throws \<^verbatim>\<open>std::length_error\<close> or \<^verbatim>\<open>std::bad_alloc\<close>\<close>
  | CallIndexOutOfRange        \<comment> \<open>\<^verbatim>\<open>callsByNodeOffset[id][i]\<close> past the end of the vector\<close>
  | PlacementMissing           \<comment> \<open>\<^verbatim>\<open>referencePositionAndOrientation.at(id)\<close> throws\<close>
  | IntervalOutOfOrder         \<comment> \<open>\<^verbatim>\<open>assert(referenceIntervalPastEnd >= referenceIntervalStart)\<close>\<close>
  | NoNodeAtReference          \<comment> \<open>\<^verbatim>\<open>assert(refNodeResult != nodesByReference.end())\<close>\<close>
  | SubstrOutOfRange           \<comment> \<open>\<^verbatim>\<open>refSeq.substr\<close> throws\<close>
  | RefSeqIndexOutOfRange      \<comment> \<open>\<^verbatim>\<open>refSeq[i]\<close> past the terminating position\<close>
  | InsertionAtZero            \<comment> \<open>\<^verbatim>\<open>assert(referenceIntervalStart != 0)\<close>\<close>
  | InvalidBaseCall            \<comment> \<open>\<^verbatim>\<open>throw std::runtime_error("Semantically invalid BaseCall")\<close>\<close>

text \<open>\<^verbatim>\<open>size_t\<close> is 64 bits wide; \<^verbatim>\<open>(size_t) -1\<close> is its largest value.\<close>

definition SIZE_MAX :: nat where
  "SIZE_MAX = 2 ^ 64 - 1"

subsection \<open>BaseCall\<close>

text \<open>
  \<^verbatim>\<open>struct BaseCall\<close>: the flag, and the array \<^verbatim>\<open>alts[MAX_ALTS]\<close> together with its
  fill counter \<^verbatim>\<open>numberOfAlts\<close> as the list of the slots filled so far.
\<close>

record BaseCall =
  graphBasePresent :: bool
  alts :: string

definition MAX_ALTS :: nat where
  "MAX_ALTS = 2"

definition numberOfAlts :: "BaseCall \<Rightarrow> nat" where
  "numberOfAlts call = length (alts call)"

text \<open>The default constructor: both member initialisers apply, no slot is filled.\<close>

definition BaseCall_default :: BaseCall where
  "BaseCall_default = \<lparr>graphBasePresent = False, alts = []\<rparr>"

text \<open>One round of the loop \<^verbatim>\<open>for(auto alt : altSet)\<close> of the constructor.\<close>

definition BaseCall_token :: "BaseCall \<Rightarrow> string \<Rightarrow> fatal + BaseCall" where
  "BaseCall_token call alt =
     (if alt = ''-'' then Inr call
      else if alt = ''.'' then Inr (call\<lparr>graphBasePresent := True\<rparr>)
      else if length alt \<noteq> 1 then Inl AltTokenSize
      else if \<not> numberOfAlts call < MAX_ALTS then Inl TooManyAlts
      else Inr (call\<lparr>alts := alts call @ [alt ! 0]\<rparr>))"

fun BaseCall_loop :: "BaseCall \<Rightarrow> string list \<Rightarrow> fatal + BaseCall" where
  "BaseCall_loop call [] = Inr call"
| "BaseCall_loop call (alt # rest) =
     (case BaseCall_token call alt of
        Inl e \<Rightarrow> Inl e
      | Inr call' \<Rightarrow> BaseCall_loop call' rest)"

text \<open>
  \<^verbatim>\<open>BaseCall(const std::set<std::string>& altSet)\<close>. Iterating a \<^verbatim>\<open>std::set\<close> of strings
  visits its elements in ascending order of \<^verbatim>\<open>std::string::operator<\<close>, the
  lexicographic order on unsigned bytes: \<open>sorted_list_of_set\<close> over the order of
  \<open>Char_ord\<close> and \<open>List_Lexorder\<close>.
\<close>

definition BaseCall_of :: "string set \<Rightarrow> fatal + BaseCall" where
  "BaseCall_of altSet = BaseCall_loop BaseCall_default (sorted_list_of_set altSet)"


subsection \<open>The graph, as the program sees it\<close>

text \<open>
  The graph library is outside this repository; the program uses it through a handful of
  calls, which are the fields and functions below. A \<^verbatim>\<open>Node*\<close> is modelled by the id of
  the node it points at, and dereferencing it goes through \<open>get_node\<close>; the null pointer of
  a default-constructed \<^verbatim>\<open>NodeTraversal\<close> is \<open>None\<close> where the program tests for it.
\<close>

record Node =
  node_id :: int
  sequence :: string

record NodeTraversal =
  node :: int
  backward :: bool

record Edit =
  from_length :: int
  to_length :: int
  edit_sequence :: string

record Mapping =
  position_node_id :: int
  is_reverse :: bool
  edit :: "Edit list"

record VG =
  graph_nodes :: "Node list"                                  \<comment> \<open>in the order of \<^verbatim>\<open>for_each_node\<close>\<close>
  nodes_prev :: "NodeTraversal \<Rightarrow> NodeTraversal list"
  nodes_next :: "NodeTraversal \<Rightarrow> NodeTraversal list"
  get_path :: "string \<Rightarrow> Mapping list option"              \<comment> \<open>\<^verbatim>\<open>paths.has_path\<close>, \<^verbatim>\<open>paths.get_path\<close>\<close>
  reverse_complement :: "string \<Rightarrow> string"

definition get_node :: "VG \<Rightarrow> int \<Rightarrow> Node option" where
  "get_node vg i = find (\<lambda>n. node_id n = i) (graph_nodes vg)"

text \<open>\<^verbatim>\<open>NodeTraversal(node)\<close>: the forward traversal of a node.\<close>

definition forward_traversal :: "int \<Rightarrow> NodeTraversal" where
  "forward_traversal n = \<lparr>node = n, backward = False\<rparr>"

fun mapping_is_perfect_match_loop :: "Edit list \<Rightarrow> bool" where
  "mapping_is_perfect_match_loop [] = True"
| "mapping_is_perfect_match_loop (e # es) =
     (if from_length e \<noteq> to_length e \<or> edit_sequence e \<noteq> [] then False
      else mapping_is_perfect_match_loop es)"

definition mapping_is_perfect_match :: "Mapping \<Rightarrow> bool" where
  "mapping_is_perfect_match mapping = mapping_is_perfect_match_loop (edit mapping)"

text \<open>
  Modelled from the spec: the reverse-complement primitive belongs to the graph library and
  is not in this repository; the program only calls it. The examples below instantiate
  the field \<open>reverse_complement\<close> with this function: the string reversed, with A and T
  exchanged and C and G exchanged.
\<close>

definition complement_base :: "char \<Rightarrow> char" where
  "complement_base c =
     (if c = CHR ''A'' then CHR ''T'' else if c = CHR ''T'' then CHR ''A''
      else if c = CHR ''C'' then CHR ''G'' else if c = CHR ''G'' then CHR ''C''
      else CHR ''N'')"

definition dna_reverse_complement :: "string \<Rightarrow> string" where
  "dna_reverse_complement s = rev (map complement_base s)"

subsection \<open>Variant records and diagnostics\<close>

text \<open>
  What the program sets in a \<^verbatim>\<open>vcflib::Variant\<close> before writing it to the standard output:
  the 1-based position, the reference allele, the alt alleles in the order of
  \<^verbatim>\<open>add_alt_allele\<close>, the GT string of the one sample, and the quality.
\<close>

record Variant =
  position :: nat
  ref :: string
  alt :: "string list"
  genotype :: string
  quality :: nat

text \<open>
  The lines the pass over non-reference nodes writes to the standard error when it skips a
  node or keeps one with novel alts, each with the id of the node it names (the progress
  lines, \<^verbatim>\<open>Found variant ...\<close> and \<^verbatim>\<open>Node ... status: ...\<close>, are left out): \<^verbatim>\<open>Node <id> not anchored to reference.\<close>,
  \<^verbatim>\<open>Node <id> inverts reference path.\<close>, \<^verbatim>\<open>Node <id> allows duplication.\<close>,
  \<^verbatim>\<open>Node <id> is nonreference attached to reference, but only partially present. Skipping!\<close>
  and \<^verbatim>\<open>Node <id> is nonreference attached to reference, and present, but has additional novel alts!\<close>
\<close>

datatype diagnostic =
    NotAnchored int
  | InvertsReferencePath int
  | AllowsDuplication int
  | PartiallyPresent int
  | NovelAlts int

section \<open>Tracing the reference path\<close>

text \<open>
  The four variables the loop over the path's mappings maintains. A coordinate is a
  \<^verbatim>\<open>size_t\<close>; it never exceeds the length of the reference string, which is held in
  memory, so it is modelled as \<open>nat\<close> without wrap-around.
  \<open>nodesByReference\<close> is the \<^verbatim>\<open>std::map\<close> ordered by \<^verbatim>\<open>std::greater\<close>.
\<close>

record trace_state =
  referencePositionAndOrientation :: "int \<rightharpoonup> nat \<times> bool"
  refSeq :: string
  nodesByReference :: "nat \<rightharpoonup> NodeTraversal"
  referenceBase :: nat

definition trace_init :: trace_state where
  "trace_init = \<lparr>referencePositionAndOrientation = Map.empty, refSeq = [],
                  nodesByReference = Map.empty, referenceBase = 0\<rparr>"

text \<open>The body of \<^verbatim>\<open>for(auto mapping : vg.paths.get_path(refPathName))\<close>.\<close>

definition trace_mapping :: "VG \<Rightarrow> trace_state \<Rightarrow> Mapping \<Rightarrow> fatal + trace_state" where
  "trace_mapping vg st mapping =
     (if \<not> mapping_is_perfect_match mapping then Inl MappingNotPerfectMatch
      else
        let rpo = referencePositionAndOrientation st;
            rpo' = (if rpo (position_node_id mapping) = None
                    then rpo(position_node_id mapping \<mapsto> (referenceBase st, is_reverse mapping))
                    else rpo)
        in case get_node vg (position_node_id mapping) of
             None \<Rightarrow> Inl NoSuchNode
           | Some n \<Rightarrow>
               Inr \<lparr>referencePositionAndOrientation = rpo',
                    refSeq = refSeq st @ sequence n,
                    nodesByReference = (nodesByReference st)
                      (referenceBase st \<mapsto>
                         \<lparr>node = position_node_id mapping, backward = is_reverse mapping\<rparr>),
                    referenceBase = referenceBase st + length (sequence n)\<rparr>)"

fun trace_loop :: "VG \<Rightarrow> trace_state \<Rightarrow> Mapping list \<Rightarrow> fatal + trace_state" where
  "trace_loop vg st [] = Inr st"
| "trace_loop vg st (mapping # rest) =
     (case trace_mapping vg st mapping of
        Inl e \<Rightarrow> Inl e
      | Inr st' \<Rightarrow> trace_loop vg st' rest)"

definition trace_reference :: "VG \<Rightarrow> string \<Rightarrow> fatal + trace_state" where
  "trace_reference vg refPathName =
     (case get_path vg refPathName of
        None \<Rightarrow> Inl NoReferencePath
      | Some path \<Rightarrow> trace_loop vg trace_init path)"

section \<open>Parsing the call file\<close>

subsection \<open>Reading tokens from a line\<close>

text \<open>
  \<^verbatim>\<open>std::stringstream tokens(line)\<close> and the four formatted extractions
  \<^verbatim>\<open>tokens >> x\<close>. The stream is the text not yet read and its fail bit. Every extraction
  first skips white space (the sentry); it does nothing but set the fail bit, and leaves
  its variable as it was, when the fail bit is already set or no character is left. An
  extraction therefore takes the value its variable holds and returns the value it holds
  afterwards.
\<close>

record stringstream =
  unread :: string
  failbit :: bool

definition isspace :: "char \<Rightarrow> bool" where
  "isspace c \<longleftrightarrow> c \<in> set [CHR '' '', CHR 0x09, CHR 0x0A, CHR 0x0B, CHR 0x0C, CHR 0x0D]"

definition isdigit :: "char \<Rightarrow> bool" where
  "isdigit c \<longleftrightarrow> CHR ''0'' \<le> c \<and> c \<le> CHR ''9''"

definition sentry :: "stringstream \<Rightarrow> string option" where
  "sentry s =
     (if failbit s then None
      else case dropWhile isspace (unread s) of
             [] \<Rightarrow> None
           | c # cs \<Rightarrow> Some (c # cs))"

definition set_failbit :: "stringstream \<Rightarrow> stringstream" where
  "set_failbit s = s\<lparr>failbit := True\<rparr>"

text \<open>The value of a string of decimal digits.\<close>

definition digits_value :: "string \<Rightarrow> nat" where
  "digits_value ds = foldl (\<lambda>v c. 10 * v + (of_char c - 48)) 0 ds"

text \<open>The optional sign in front of a number: whether it is a minus, and the text after it.\<close>

definition read_sign :: "string \<Rightarrow> bool \<times> string" where
  "read_sign cs =
     (case cs of
        [] \<Rightarrow> (False, [])
      | c # rest \<Rightarrow>
          if c = CHR ''-'' then (True, rest)
          else if c = CHR ''+'' then (False, rest)
          else (False, c # rest))"

text \<open>
  \<^verbatim>\<open>tokens >> nodeId\<close> for \<^verbatim>\<open>int64_t\<close>: an optional sign and the longest run of decimal
  digits. No digit, or a value outside the type, sets the fail bit and stores zero or the
  nearest bound.
\<close>

definition extract_int64 :: "stringstream \<Rightarrow> int \<Rightarrow> stringstream \<times> int" where
  "extract_int64 s held =
     (case sentry s of
        None \<Rightarrow> (set_failbit s, held)
      | Some cs \<Rightarrow>
          let (negative, cs') = read_sign cs;
              ds = takeWhile isdigit cs';
              v = int (digits_value ds)
          in if ds = [] then (set_failbit s, 0)
             else if negative \<and> v > 2 ^ 63 then (set_failbit s, - (2 ^ 63))
             else if \<not> negative \<and> v > 2 ^ 63 - 1 then (set_failbit s, 2 ^ 63 - 1)
             else (\<lparr>unread = dropWhile isdigit cs', failbit = False\<rparr>,
                   if negative then - v else v))"

text \<open>
  \<^verbatim>\<open>tokens >> offset\<close> for \<^verbatim>\<open>size_t\<close>: as above; a minus sign negates the value in the
  unsigned type.
\<close>

definition extract_size_t :: "stringstream \<Rightarrow> nat \<Rightarrow> stringstream \<times> nat" where
  "extract_size_t s held =
     (case sentry s of
        None \<Rightarrow> (set_failbit s, held)
      | Some cs \<Rightarrow>
          let (negative, cs') = read_sign cs;
              ds = takeWhile isdigit cs';
              v = digits_value ds
          in if ds = [] then (set_failbit s, 0)
             else if v > SIZE_MAX then (set_failbit s, SIZE_MAX)
             else (\<lparr>unread = dropWhile isdigit cs', failbit = False\<rparr>,
                   if negative then (2 ^ 64 - v) mod 2 ^ 64 else v))"

text \<open>\<^verbatim>\<open>tokens >> graphBase\<close> for \<^verbatim>\<open>char\<close>: the next character that is not white space.\<close>

definition extract_char :: "stringstream \<Rightarrow> char \<Rightarrow> stringstream \<times> char" where
  "extract_char s held =
     (case sentry s of
        None \<Rightarrow> (set_failbit s, held)
      | Some cs \<Rightarrow> (\<lparr>unread = tl cs, failbit = False\<rparr>, hd cs))"

text \<open>\<^verbatim>\<open>tokens >> call\<close> for \<^verbatim>\<open>std::string\<close>: the characters up to the next white space.\<close>

definition extract_string :: "stringstream \<Rightarrow> string \<Rightarrow> stringstream \<times> string" where
  "extract_string s held =
     (case sentry s of
        None \<Rightarrow> (set_failbit s, held)
      | Some cs \<Rightarrow>
          (\<lparr>unread = dropWhile (\<lambda>c. \<not> isspace c) cs, failbit = False\<rparr>,
           takeWhile (\<lambda>c. \<not> isspace c) cs))"

subsection \<open>Splitting the call string\<close>

text \<open>
  \<^verbatim>\<open>std::sregex_token_iterator(call.begin(), call.end(), std::regex(","), -1)\<close> yields the
  pieces between the commas; after the last comma it yields the rest only when the rest
  is not empty, and a string with no comma (the empty string too) is one piece.
\<close>

fun pieces :: "string \<Rightarrow> string \<Rightarrow> string list" where
  "pieces cur [] = [cur]"
| "pieces cur (c # cs) =
     (if c = CHR '','' then cur # pieces [] cs else pieces (cur @ [c]) cs)"

definition split_call :: "string \<Rightarrow> string list" where
  "split_call call =
     (let ps = pieces [] call
      in if CHR '','' \<in> set call \<and> last ps = [] then butlast ps else ps)"

subsection \<open>The call table\<close>

text \<open>
  \<^verbatim>\<open>std::map<int64_t, std::vector<BaseCall>> callsByNodeOffset\<close> is only ever read and
  written through \<^verbatim>\<open>operator[]\<close>, which makes the empty vector for a key it does not hold:
  a function from node ids to vectors, the empty vector where nothing was stored.
\<close>

type_synonym call_table = "int \<Rightarrow> BaseCall list"

definition no_calls :: call_table where
  "no_calls = (\<lambda>_. [])"

text \<open>\<^verbatim>\<open>std::vector::resize\<close>: new slots are made by the default constructor.\<close>

definition resize :: "BaseCall list \<Rightarrow> nat \<Rightarrow> BaseCall list" where
  "resize v n = take n v @ replicate (n - length v) BaseCall_default"

text \<open>
  Growing a vector throws when the new length is beyond \<^verbatim>\<open>max_size()\<close>
  (\<^verbatim>\<open>std::length_error\<close>) or when the memory for it cannot be had (\<^verbatim>\<open>std::bad_alloc\<close>);
  nothing catches either, so the run ends. A BaseCall takes four bytes and a vector fits
  in the address space, so \<^verbatim>\<open>max_size()\<close> is at most a quarter of \<open>SIZE_MAX\<close>. How long
  a vector the machine can still allocate is not known to the program: \<open>capacity\<close> is that
  length.
\<close>

definition resize_throws :: "nat \<Rightarrow> BaseCall list \<Rightarrow> nat \<Rightarrow> bool" where
  "resize_throws capacity v n \<longleftrightarrow> length v < n \<and> (SIZE_MAX div 4 < n \<or> capacity < n)"

text \<open>
  \<^verbatim>\<open>callsByNodeOffset[id][i]\<close>: an index past the end of the vector reads outside it, which the
  embedding reports as \<open>None\<close>.
\<close>

definition call_at :: "call_table \<Rightarrow> int \<Rightarrow> nat \<Rightarrow> BaseCall option" where
  "call_at calls i k = (if k < length (calls i) then Some (calls i ! k) else None)"

text \<open>
  The body of \<^verbatim>\<open>while(std::getline(glennStream, line))\<close> for a line that is not empty,
  in two parts. First the four extractions. The locals \<^verbatim>\<open>nodeId\<close>, \<^verbatim>\<open>offset\<close> and
  \<^verbatim>\<open>graphBase\<close> are declared without an initialiser: \<open>junk\<close> is what the first two happen
  to hold (the third is never read). \<^verbatim>\<open>offset--\<close> wraps around at \<open>2 ^ 64\<close>.
\<close>

definition read_fields :: "int \<times> nat \<Rightarrow> string \<Rightarrow> int \<times> nat \<times> char \<times> string" where
  "read_fields junk line =
     (let tokens = \<lparr>unread = line, failbit = False\<rparr>;
          (tokens, nodeId) = extract_int64 tokens (fst junk);
          (tokens, offset) = extract_size_t tokens (snd junk);
          offset = (offset + SIZE_MAX) mod 2 ^ 64;
          (tokens, graphBase) = extract_char tokens (CHR 0x00);
          (tokens, call) = extract_string tokens []
      in (nodeId, offset, graphBase, call))"

text \<open>
  Then the call string is split into the set \<^verbatim>\<open>callCharacters\<close>, the vector of the node is
  made long enough (\<^verbatim>\<open>offset + 1\<close> wraps around too), which may throw, and the slot is
  assigned; the right-hand side \<^verbatim>\<open>BaseCall(callCharacters)\<close> is constructed after the
  resize and before the slot is written.
\<close>

definition glenn_line ::
  "nat \<Rightarrow> int \<times> nat \<Rightarrow> call_table \<Rightarrow> string \<Rightarrow> fatal + call_table" where
  "glenn_line capacity junk calls line =
     (let (nodeId, offset, graphBase, call) = read_fields junk line;
          callCharacters = set (split_call call)
      in if length (calls nodeId) \<le> offset \<and>
            resize_throws capacity (calls nodeId) ((offset + 1) mod 2 ^ 64)
         then Inl ResizeFailed
         else
           let vec = (if length (calls nodeId) \<le> offset
                      then resize (calls nodeId) ((offset + 1) mod 2 ^ 64)
                      else calls nodeId)
           in case BaseCall_of callCharacters of
                Inl e \<Rightarrow> Inl e
              | Inr baseCall \<Rightarrow>
                  if offset < length vec then Inr (calls(nodeId := vec[offset := baseCall]))
                  else Inl CallIndexOutOfRange)"

text \<open>
  The loop over the lines of the call file; an empty line is skipped. A line on which an
  extraction fails ends the run, so the junk is read on one line at most.
\<close>

fun glenn_lines ::
  "nat \<Rightarrow> int \<times> nat \<Rightarrow> call_table \<Rightarrow> string list \<Rightarrow> fatal + call_table" where
  "glenn_lines capacity junk calls [] = Inr calls"
| "glenn_lines capacity junk calls (line # rest) =
     (if line = [] then glenn_lines capacity junk calls rest
      else case glenn_line capacity junk calls line of
             Inl e \<Rightarrow> Inl e
           | Inr calls' \<Rightarrow> glenn_lines capacity junk calls' rest)"

text \<open>
  The call string the four extractions leave in \<^verbatim>\<open>call\<close>; it does not depend on what the
  uninitialised locals hold. It is empty exactly when the stream fails or runs out before
  a fourth field is read.
\<close>

definition call_field :: "string \<Rightarrow> string" where
  "call_field line = snd (snd (snd (read_fields (0, 0) line)))"

text \<open>
  The white-space separated tokens of a line, as the specification counts them; used to
  state what the specification asks of a line with a token missing.
\<close>

fun ws_tokens_from :: "string \<Rightarrow> string \<Rightarrow> string list" where
  "ws_tokens_from cur [] = (if cur = [] then [] else [cur])"
| "ws_tokens_from cur (c # cs) =
     (if isspace c then (if cur = [] then ws_tokens_from [] cs else cur # ws_tokens_from [] cs)
      else ws_tokens_from (cur @ [c]) cs)"

definition ws_tokens :: "string \<Rightarrow> string list" where
  "ws_tokens line = ws_tokens_from [] line"

section \<open>The pass over the non-reference nodes\<close>

text \<open>
  The first \<^verbatim>\<open>vg.for_each_node\<close>. Its body either returns early, with or without a line on
  the standard error, or writes one variant; it is embedded phase by phase, each phase a
  function that ends in the next. The result of the body for one node is the lines it
  logged and the variants it wrote, or the fatal error that ended the run, or \<open>None\<close>
  when its \<^verbatim>\<open>while\<close> loop never ends.
\<close>

type_synonym node_output = "diagnostic list \<times> Variant list"

text \<open>
  The loop \<^verbatim>\<open>for(auto& candidate : prevNodes)\<close> (and the same loop over \<^verbatim>\<open>nextNodes\<close>),
  on the pair of \<^verbatim>\<open>leftmostInPosition\<close> and \<^verbatim>\<open>leftmostInNode\<close>.
\<close>

fun leftmost_loop ::
  "(int \<rightharpoonup> nat \<times> bool) \<Rightarrow> NodeTraversal list \<Rightarrow> nat \<times> NodeTraversal option \<Rightarrow>
   nat \<times> NodeTraversal option" where
  "leftmost_loop rpo [] best = best"
| "leftmost_loop rpo (candidate # rest) (leftmostPosition, leftmostNode) =
     (case rpo (node candidate) of
        None \<Rightarrow> leftmost_loop rpo rest (leftmostPosition, leftmostNode)
      | Some found \<Rightarrow>
          if fst found < leftmostPosition
          then leftmost_loop rpo rest (fst found, Some candidate)
          else leftmost_loop rpo rest (leftmostPosition, leftmostNode))"

definition leftmost :: "(int \<rightharpoonup> nat \<times> bool) \<Rightarrow> NodeTraversal list \<Rightarrow> NodeTraversal option" where
  "leftmost rpo candidates = snd (leftmost_loop rpo candidates (SIZE_MAX, None))"

text \<open>The scan of the node's own calls: \<^verbatim>\<open>for(auto& call : callsByNodeOffset[node->id()])\<close>.\<close>

fun presence_loop :: "BaseCall list \<Rightarrow> bool \<times> bool \<times> nat \<Rightarrow> bool \<times> bool \<times> nat" where
  "presence_loop [] acc = acc"
| "presence_loop (call # rest) (nodeFullyPresent, nodePartlyPresent, maxAltsPresent) =
     presence_loop rest
       (nodeFullyPresent \<and> graphBasePresent call,
        nodePartlyPresent \<or> graphBasePresent call,
        max maxAltsPresent (numberOfAlts call))"

definition presence :: "BaseCall list \<Rightarrow> bool \<times> bool \<times> nat" where
  "presence v = presence_loop v (True, False, 0)"

text \<open>
  \<^verbatim>\<open>nodesByReference.lower_bound(refPosition)\<close> on the map ordered by \<^verbatim>\<open>std::greater\<close>:
  the entry with the greatest key that is not greater than the query, \<open>None\<close> for
  \<^verbatim>\<open>end()\<close>.
\<close>

fun lower_bound :: "(nat \<rightharpoonup> 'a) \<Rightarrow> nat \<Rightarrow> 'a option" where
  "lower_bound m 0 = m 0"
| "lower_bound m (Suc k) =
     (case m (Suc k) of
        Some v \<Rightarrow> Some v
      | None \<Rightarrow> lower_bound m k)"

text \<open>
  The inner loop \<^verbatim>\<open>for(int i = 0; i < refNode->sequence().size(); i++)\<close> over the offsets of
  one reference node, on the flag \<^verbatim>\<open>refPathExists\<close>.
\<close>

fun ref_node_loop :: "call_table \<Rightarrow> int \<Rightarrow> nat list \<Rightarrow> bool \<Rightarrow> fatal + bool" where
  "ref_node_loop calls refNode [] refPathExists = Inr refPathExists"
| "ref_node_loop calls refNode (i # rest) refPathExists =
     (case call_at calls refNode i of
        None \<Rightarrow> Inl CallIndexOutOfRange
      | Some call \<Rightarrow>
          ref_node_loop calls refNode rest
            (if graphBasePresent call \<or> numberOfAlts call > 0 then True else refPathExists))"

text \<open>
  The loop \<^verbatim>\<open>while(refPosition < referenceIntervalPastEnd)\<close>. It does not advance over a
  reference node whose sequence is empty, so it may run forever: \<open>None\<close>.
\<close>

partial_function (option) ref_path_loop ::
  "VG \<Rightarrow> trace_state \<Rightarrow> call_table \<Rightarrow> nat \<Rightarrow> nat \<Rightarrow> bool \<Rightarrow> (fatal + bool) option" where
  "ref_path_loop vg st calls referenceIntervalPastEnd refPosition refPathExists =
     (if refPosition < referenceIntervalPastEnd then
        (case lower_bound (nodesByReference st) refPosition of
           None \<Rightarrow> Some (Inl NoNodeAtReference)
         | Some refNodeResult \<Rightarrow>
             (case get_node vg (node refNodeResult) of
                None \<Rightarrow> Some (Inl NoSuchNode)
              | Some refNode \<Rightarrow>
                  (case ref_node_loop calls (node_id refNode)
                          [0 ..< length (sequence refNode)] refPathExists of
                     Inl e \<Rightarrow> Some (Inl e)
                   | Inr refPathExists' \<Rightarrow>
                       ref_path_loop vg st calls referenceIntervalPastEnd
                         (refPosition + length (sequence refNode)) refPathExists')))
      else Some (Inr refPathExists))"

text \<open>
  \<^verbatim>\<open>refSeq[i]\<close> on a \<^verbatim>\<open>std::string\<close>: the character at \<open>i\<close>, the terminating zero at the
  length, and a read outside the string beyond it.
\<close>

definition string_at :: "string \<Rightarrow> nat \<Rightarrow> char option" where
  "string_at s i =
     (if i < length s then Some (s ! i)
      else if i = length s then Some (CHR 0x00)
      else None)"

text \<open>
  From \<^verbatim>\<open>vcflib::Variant variant\<close> to the end of the body: the two alleles, the left shift of
  an insertion, the position and the genotype.
\<close>

definition structural_variant ::
  "VG \<Rightarrow> trace_state \<Rightarrow> NodeTraversal \<Rightarrow> string \<Rightarrow> nat \<Rightarrow> nat \<Rightarrow> bool \<Rightarrow> fatal + Variant" where
  "structural_variant vg st altNode altSequence referenceIntervalStart referenceIntervalSize
     refPathExists =
     (if referenceIntervalStart > length (refSeq st) then Inl SubstrOutOfRange
      else
        let refAllele = take referenceIntervalSize (drop referenceIntervalStart (refSeq st));
            altAllele = (if backward altNode then reverse_complement vg altSequence
                         else altSequence);
            genotype = (if refPathExists then ''1/0'' else ''1/1'')
        in if length refAllele = 0 then
             (if \<not> referenceIntervalStart \<noteq> 0 then Inl InsertionAtZero
              else
                case string_at (refSeq st) (referenceIntervalStart - 1) of
                  None \<Rightarrow> Inl RefSeqIndexOutOfRange
                | Some anchor \<Rightarrow>
                    Inr \<lparr>position = (referenceIntervalStart - 1) + 1,
                         ref = anchor # refAllele, alt = [anchor # altAllele],
                         genotype = genotype, quality = 0\<rparr>)
           else
             Inr \<lparr>position = referenceIntervalStart + 1,
                  ref = refAllele, alt = [altAllele],
                  genotype = genotype, quality = 0\<rparr>)"

text \<open>
  From \<^verbatim>\<open>bool nodeFullyPresent = true\<close> on: the node is placed on the reference interval
  from \<open>referenceIntervalStart\<close> up to \<open>referenceIntervalPastEnd\<close>.
\<close>

definition placed_node ::
  "VG \<Rightarrow> trace_state \<Rightarrow> call_table \<Rightarrow> NodeTraversal \<Rightarrow> nat \<Rightarrow> nat \<Rightarrow>
   (fatal + node_output) option" where
  "placed_node vg st calls altNode referenceIntervalStart referenceIntervalPastEnd =
     (let referenceIntervalSize = referenceIntervalPastEnd - referenceIntervalStart;
          (nodeFullyPresent, nodePartlyPresent, maxAltsPresent) = presence (calls (node altNode))
      in if \<not> nodePartlyPresent then Some (Inr ([], []))
         else if nodePartlyPresent \<and> \<not> nodeFullyPresent
         then Some (Inr ([PartiallyPresent (node altNode)], []))
         else
           let log = (if maxAltsPresent > 0 then [NovelAlts (node altNode)] else [])
           in case ref_path_loop vg st calls referenceIntervalPastEnd referenceIntervalStart False of
                None \<Rightarrow> None
              | Some (Inl e) \<Rightarrow> Some (Inl e)
              | Some (Inr refPathExists) \<Rightarrow>
                  (case get_node vg (node altNode) of
                     None \<Rightarrow> Some (Inl NoSuchNode)
                   | Some n \<Rightarrow>
                       (case structural_variant vg st altNode (sequence n)
                               referenceIntervalStart referenceIntervalSize refPathExists of
                          Inl e \<Rightarrow> Some (Inl e)
                        | Inr variant \<Rightarrow> Some (Inr (log, [variant])))))"

text \<open>
  From \<^verbatim>\<open>auto& inNodePlacement\<close> on: the duplication check and the bounds of the reference
  interval, for the anchors as they stand after the swap.
\<close>

definition oriented_node ::
  "VG \<Rightarrow> trace_state \<Rightarrow> call_table \<Rightarrow> NodeTraversal \<Rightarrow> NodeTraversal \<Rightarrow> NodeTraversal \<Rightarrow>
   (fatal + node_output) option" where
  "oriented_node vg st calls altNode leftmostInNode leftmostOutNode =
     (case (referencePositionAndOrientation st (node leftmostInNode),
            referencePositionAndOrientation st (node leftmostOutNode)) of
        (Some inNodePlacement, Some outNodePlacement) \<Rightarrow>
          if fst outNodePlacement \<le> fst inNodePlacement
          then Some (Inr ([AllowsDuplication (node altNode)], []))
          else
            (case get_node vg (node leftmostInNode) of
               None \<Rightarrow> Some (Inl NoSuchNode)
             | Some inNode \<Rightarrow>
                 let referenceIntervalStart = fst inNodePlacement + length (sequence inNode);
                     referenceIntervalPastEnd = fst outNodePlacement
                 in if \<not> referenceIntervalPastEnd \<ge> referenceIntervalStart
                    then Some (Inl IntervalOutOfOrder)
                    else placed_node vg st calls altNode
                           referenceIntervalStart referenceIntervalPastEnd)
      | _ \<Rightarrow> Some (Inl PlacementMissing))"

text \<open>
  From \<^verbatim>\<open>bool readInForward\<close> on: the inversion check and the swap, for a node with both
  anchors found.
\<close>

definition anchored_node ::
  "VG \<Rightarrow> trace_state \<Rightarrow> call_table \<Rightarrow> int \<Rightarrow> NodeTraversal \<Rightarrow> NodeTraversal \<Rightarrow>
   (fatal + node_output) option" where
  "anchored_node vg st calls n leftmostInNode leftmostOutNode =
     (case (referencePositionAndOrientation st (node leftmostInNode),
            referencePositionAndOrientation st (node leftmostOutNode)) of
        (Some inPlacement, Some outPlacement) \<Rightarrow>
          let readInForward = (backward leftmostInNode = snd inPlacement);
              readOutForward = (backward leftmostOutNode = snd outPlacement)
          in if readInForward \<noteq> readOutForward
             then Some (Inr ([InvertsReferencePath n], []))
             else if \<not> readInForward
             then oriented_node vg st calls ((forward_traversal n)\<lparr>backward := True\<rparr>)
                    leftmostOutNode leftmostInNode
             else oriented_node vg st calls (forward_traversal n)
                    leftmostInNode leftmostOutNode
      | _ \<Rightarrow> Some (Inl PlacementMissing))"

text \<open>The whole body of the first \<^verbatim>\<open>for_each_node\<close>, for the node with id \<open>n\<close>.\<close>

definition bubble_node ::
  "VG \<Rightarrow> trace_state \<Rightarrow> call_table \<Rightarrow> int \<Rightarrow> (fatal + node_output) option" where
  "bubble_node vg st calls n =
     (if referencePositionAndOrientation st n \<noteq> None then Some (Inr ([], []))
      else
        case (leftmost (referencePositionAndOrientation st) (nodes_prev vg (forward_traversal n)),
              leftmost (referencePositionAndOrientation st) (nodes_next vg (forward_traversal n))) of
          (Some leftmostInNode, Some leftmostOutNode) \<Rightarrow>
            anchored_node vg st calls n leftmostInNode leftmostOutNode
        | _ \<Rightarrow> Some (Inr ([NotAnchored n], [])))"

section \<open>The pass over the reference nodes\<close>

text \<open>
  The second \<^verbatim>\<open>vg.for_each_node\<close>. The body of its loop over the offsets of a node, from
  \<^verbatim>\<open>vcflib::Variant variant\<close> on, for a call with at least one alt: the variant of the site.
\<close>

definition snp_variant ::
  "VG \<Rightarrow> trace_state \<Rightarrow> Node \<Rightarrow> nat \<Rightarrow> BaseCall \<Rightarrow> fatal + Variant" where
  "snp_variant vg st n i call =
     (case referencePositionAndOrientation st (node_id n) of
        None \<Rightarrow> Inl PlacementMissing
      | Some placement \<Rightarrow>
          let referencePosition =
                (if snd placement then fst placement + (length (sequence n) - i - 1)
                 else fst placement + i)
          in case string_at (refSeq st) referencePosition of
               None \<Rightarrow> Inl RefSeqIndexOutOfRange
             | Some base \<Rightarrow>
                 let refAllele = [base];
                     altAlleles = map (\<lambda>a. if snd placement then reverse_complement vg [a] else [a])
                                    (alts call)
                 in if graphBasePresent call then
                      Inr \<lparr>position = referencePosition + 1, ref = refAllele, alt = altAlleles,
                           genotype = ''1/0'', quality = 0\<rparr>
                    else if numberOfAlts call = 1 then
                      Inr \<lparr>position = referencePosition + 1, ref = refAllele, alt = altAlleles,
                           genotype = ''1/1'', quality = 0\<rparr>
                    else if numberOfAlts call = 2 then
                      Inr \<lparr>position = referencePosition + 1, ref = refAllele, alt = altAlleles,
                           genotype = ''1/2'', quality = 0\<rparr>
                    else Inl InvalidBaseCall)"

text \<open>
  The loop \<^verbatim>\<open>for(int i = 0; i < node->sequence().size(); i++)\<close>. A variant is written to the
  standard output as soon as it is made, so the result is the variants written so far
  together with the fatal error that ended the run, if any.
\<close>

type_synonym snp_output = "Variant list \<times> fatal option"

fun snp_loop ::
  "VG \<Rightarrow> trace_state \<Rightarrow> call_table \<Rightarrow> Node \<Rightarrow> nat list \<Rightarrow> Variant list \<Rightarrow> snp_output" where
  "snp_loop vg st calls n [] out = (out, None)"
| "snp_loop vg st calls n (i # rest) out =
     (case call_at calls (node_id n) i of
        None \<Rightarrow> (out, Some CallIndexOutOfRange)
      | Some call \<Rightarrow>
          if numberOfAlts call = 0 then snp_loop vg st calls n rest out
          else
            (case snp_variant vg st n i call of
               Inl e \<Rightarrow> (out, Some e)
             | Inr variant \<Rightarrow> snp_loop vg st calls n rest (out @ [variant])))"

text \<open>The whole body of the second \<^verbatim>\<open>for_each_node\<close>, for the node pointed at by \<open>n\<close>.\<close>

definition snp_node :: "VG \<Rightarrow> trace_state \<Rightarrow> call_table \<Rightarrow> int \<Rightarrow> snp_output" where
  "snp_node vg st calls n =
     (if referencePositionAndOrientation st n = None then ([], None)
      else
        case get_node vg n of
          None \<Rightarrow> ([], Some NoSuchNode)
        | Some nd \<Rightarrow> snp_loop vg st calls nd [0 ..< length (sequence nd)] [])"

section \<open>What the specification says, in its own words\<close>

text \<open>
  The steps of the reference path with the coordinate each starts at: the path's nodes
  laid end to end from coordinate \<open>c\<close>.
\<close>

fun path_steps :: "VG \<Rightarrow> nat \<Rightarrow> Mapping list \<Rightarrow> (nat \<times> Node) list" where
  "path_steps vg c [] = []"
| "path_steps vg c (mapping # rest) =
     (case get_node vg (position_node_id mapping) of
        None \<Rightarrow> []
      | Some n \<Rightarrow> (c, n) # path_steps vg (c + length (sequence n)) rest)"

text \<open>
  A base of a node "is called present or carries an alt", and a reference interval "is
  observed" when some base of some path step that starts inside it is.
\<close>

definition base_observed :: "call_table \<Rightarrow> Node \<Rightarrow> nat \<Rightarrow> bool" where
  "base_observed calls n i =
     (case call_at calls (node_id n) i of
        None \<Rightarrow> False
      | Some call \<Rightarrow> graphBasePresent call \<or> alts call \<noteq> [])"

definition interval_observed ::
  "VG \<Rightarrow> call_table \<Rightarrow> Mapping list \<Rightarrow> nat \<Rightarrow> nat \<Rightarrow> bool" where
  "interval_observed vg calls path referenceIntervalStart referenceIntervalPastEnd =
     list_ex (\<lambda>(c, n). referenceIntervalStart \<le> c \<and> c < referenceIntervalPastEnd \<and>
                list_ex (base_observed calls n) [0 ..< length (sequence n)])
       (path_steps vg 0 path)"

text \<open>The tokens of a call that are neither of the two special characters.\<close>

definition real_alts :: "string list \<Rightarrow> string list" where
  "real_alts xs = filter (\<lambda>t. t \<noteq> ''-'' \<and> t \<noteq> ''.'') xs"

text \<open>
  The shape of the fields of a well-formed line: a run of white space, a run of decimal
  digits; and a stream from which no extraction can read anything any more.
\<close>

definition all_space :: "string \<Rightarrow> bool" where
  "all_space s = list_all isspace s"

definition all_digits :: "string \<Rightarrow> bool" where
  "all_digits s \<longleftrightarrow> s \<noteq> [] \<and> list_all isdigit s"

definition exhausted :: "stringstream \<Rightarrow> bool" where
  "exhausted s \<longleftrightarrow> failbit s \<or> all_space (unread s)"

text \<open>
  The placement the specification gives a node of the reference path: the coordinate and
  orientation of the first step that visits it, the coordinate counter starting at \<open>c\<close>.
\<close>

fun first_placement :: "VG \<Rightarrow> nat \<Rightarrow> Mapping list \<Rightarrow> int \<Rightarrow> (nat \<times> bool) option" where
  "first_placement vg c [] i = None"
| "first_placement vg c (mapping # rest) i =
     (if position_node_id mapping = i then Some (c, is_reverse mapping)
      else case get_node vg (position_node_id mapping) of
             None \<Rightarrow> None
           | Some n \<Rightarrow> first_placement vg (c + length (sequence n)) rest i)"

text \<open>The traversal the coordinate index holds at a coordinate: the last step that starts there.\<close>

fun step_at :: "VG \<Rightarrow> nat \<Rightarrow> Mapping list \<Rightarrow> nat \<Rightarrow> NodeTraversal option" where
  "step_at vg c [] k = None"
| "step_at vg c (mapping # rest) k =
     (case get_node vg (position_node_id mapping) of
        None \<Rightarrow> None
      | Some n \<Rightarrow>
          (case step_at vg (c + length (sequence n)) rest k of
             Some t \<Rightarrow> Some t
           | None \<Rightarrow>
               if c = k
               then Some \<lparr>node = position_node_id mapping, backward = is_reverse mapping\<rparr>
               else None))"

text \<open>The sequences of the path's nodes, end to end, and the total length of a stretch of steps.\<close>

definition path_sequence :: "VG \<Rightarrow> Mapping list \<Rightarrow> string" where
  "path_sequence vg path = concat (map (\<lambda>(c, n). sequence n) (path_steps vg 0 path))"

definition steps_length :: "(nat \<times> Node) list \<Rightarrow> nat" where
  "steps_length steps = sum_list (map (\<lambda>(c, n). length (sequence n)) steps)"

text \<open>Every step of the path names a node of the graph.\<close>

definition path_in_graph :: "VG \<Rightarrow> Mapping list \<Rightarrow> bool" where
  "path_in_graph vg path = list_all (\<lambda>m. get_node vg (position_node_id m) \<noteq> None) path"

text \<open>
  A graph with an empty node on its reference path: node 1 has no bases, node 2 has one.
  No node has a neighbour.
\<close>

definition empty_node_graph :: VG where
  "empty_node_graph =
     \<lparr>graph_nodes = [\<lparr>node_id = 1, sequence = []\<rparr>, \<lparr>node_id = 2, sequence = ''A''\<rparr>],
      nodes_prev = (\<lambda>_. []), nodes_next = (\<lambda>_. []),
      get_path = (\<lambda>name. if name = ''ref''
                   then Some [\<lparr>position_node_id = 1, is_reverse = False, edit = []\<rparr>,
                              \<lparr>position_node_id = 2, is_reverse = False, edit = []\<rparr>]
                   else None),
      reverse_complement = dna_reverse_complement\<rparr>"

subsection \<open>A worked example\<close>

text \<open>
  The reference path visits node 1 (ACGCA), node 2 (C) and node 3 (GT), all forward, so the
  reference sequence is ACGCACGT. Node 4 (GG) is a bubble from node 1 to node 3, over node
  2. Node 5 (TT) is an insertion between node 1 and node 2, at coordinate 5. Node 6 leads
  from node 3 back to node 1, and node 7 enters node 3 against its orientation.
\<close>

definition example_graph :: VG where
  "example_graph =
     \<lparr>graph_nodes =
        [\<lparr>node_id = 1, sequence = ''ACGCA''\<rparr>, \<lparr>node_id = 2, sequence = ''C''\<rparr>,
         \<lparr>node_id = 3, sequence = ''GT''\<rparr>, \<lparr>node_id = 4, sequence = ''GG''\<rparr>,
         \<lparr>node_id = 5, sequence = ''TT''\<rparr>, \<lparr>node_id = 6, sequence = ''A''\<rparr>,
         \<lparr>node_id = 7, sequence = ''A''\<rparr>],
      nodes_prev = (\<lambda>t. if node t = 4 \<or> node t = 5 \<or> node t = 7 then [forward_traversal 1]
                         else if node t = 6 then [forward_traversal 3] else []),
      nodes_next = (\<lambda>t. if node t = 4 then [forward_traversal 3]
                         else if node t = 5 then [forward_traversal 2]
                         else if node t = 6 then [forward_traversal 1]
                         else if node t = 7 then [\<lparr>node = 3, backward = True\<rparr>] else []),
      get_path = (\<lambda>name. if name = ''ref''
                   then Some [\<lparr>position_node_id = 1, is_reverse = False, edit = []\<rparr>,
                              \<lparr>position_node_id = 2, is_reverse = False, edit = []\<rparr>,
                              \<lparr>position_node_id = 3, is_reverse = False, edit = []\<rparr>]
                   else None),
      reverse_complement = dna_reverse_complement\<rparr>"

definition example_path :: "Mapping list" where
  "example_path = [\<lparr>position_node_id = 1, is_reverse = False, edit = []\<rparr>,
                   \<lparr>position_node_id = 2, is_reverse = False, edit = []\<rparr>,
                   \<lparr>position_node_id = 3, is_reverse = False, edit = []\<rparr>]"

text \<open>What tracing the reference path of the example gives.\<close>

definition example_trace :: trace_state where
  "example_trace =
     \<lparr>referencePositionAndOrientation = [1 \<mapsto> (0, False), 2 \<mapsto> (5, False), 3 \<mapsto> (6, False)],
      refSeq = ''ACGCACGT'',
      nodesByReference = [0 \<mapsto> forward_traversal 1, 5 \<mapsto> forward_traversal 2,
                          6 \<mapsto> forward_traversal 3],
      referenceBase = 8\<rparr>"

text \<open>
  The call file of the example. Base 4 of node 1 is present and has the alt T; node 2 is
  absent; base 2 of node 3 has the two alts C and A, in this order in the file; nodes 4 and
  5 are present throughout.
\<close>

definition example_lines :: "string list" where
  "example_lines =
     [''1 5 A -'', ''1 4 C .,T'', ''2 1 C -'', ''3 2 T C,A'',
      ''4 2 G .'', ''4 1 G .'', ''5 2 T .'', ''5 1 T .'']"

definition example_calls :: call_table where
  "example_calls =
     (\<lambda>_. [])
       (1 := [BaseCall_default, BaseCall_default, BaseCall_default,
              \<lparr>graphBasePresent = True, alts = ''T''\<rparr>, BaseCall_default],
        2 := [BaseCall_default],
        3 := [BaseCall_default, \<lparr>graphBasePresent = False, alts = ''AC''\<rparr>],
        4 := [\<lparr>graphBasePresent = True, alts = []\<rparr>, \<lparr>graphBasePresent = True, alts = []\<rparr>],
        5 := [\<lparr>graphBasePresent = True, alts = []\<rparr>, \<lparr>graphBasePresent = True, alts = []\<rparr>])"

text \<open>
  A BaseCall whose fill counter is within the array of alts, and whose alts stand in
  strictly ascending order.
\<close>

definition valid_call :: "BaseCall \<Rightarrow> bool" where
  "valid_call call \<longleftrightarrow> numberOfAlts call \<le> MAX_ALTS \<and> sorted_wrt (<) (alts call)"

text \<open>
  The variant the specification gives the base at offset \<open>i\<close> of a reference node placed
  at \<open>placement\<close>, for a call with at least one alt.
\<close>

definition site_position :: "nat \<times> bool \<Rightarrow> nat \<Rightarrow> nat \<Rightarrow> nat" where
  "site_position placement len i =
     (if snd placement then fst placement + (len - i - 1) else fst placement + i)"

definition site_variant :: "VG \<Rightarrow> string \<Rightarrow> nat \<times> bool \<Rightarrow> nat \<Rightarrow> nat \<Rightarrow> BaseCall \<Rightarrow> Variant" where
  "site_variant vg reference placement len i call =
     \<lparr>position = site_position placement len i + 1,
      ref = [reference ! site_position placement len i],
      alt = map (\<lambda>a. if snd placement then reverse_complement vg [a] else [a]) (alts call),
      genotype = (if graphBasePresent call then ''1/0''
                  else if length (alts call) = 1 then ''1/1'' else ''1/2''),
      quality = 0\<rparr>"

text \<open>The offsets of a node at which the call table records at least one alt.\<close>

definition alt_sites :: "call_table \<Rightarrow> int \<Rightarrow> nat list \<Rightarrow> nat list" where
  "alt_sites calls n offsets =
     filter (\<lambda>i. case call_at calls n i of None \<Rightarrow> False | Some call \<Rightarrow> alts call \<noteq> []) offsets"



text \<open>Some base of some step of a stretch of the path is observed.\<close>

definition steps_observed :: "call_table \<Rightarrow> (nat \<times> Node) list \<Rightarrow> bool" where
  "steps_observed calls steps =
     list_ex (\<lambda>(c, n). list_ex (base_observed calls n) [0 ..< length (sequence n)]) steps"

section \<open>Properties of the BaseCall constructor\<close>

lemma real_alts_Cons:
  "real_alts (t # xs) = (if t = ''-'' \<or> t = ''.'' then real_alts xs else t # real_alts xs)"
  by (simp add: real_alts_def)

lemma BaseCall_loop_ok:
  "\<forall>t \<in> set (real_alts xs). length t = 1 \<Longrightarrow>
   length (alts call) + length (real_alts xs) \<le> MAX_ALTS \<Longrightarrow>
   BaseCall_loop call xs =
     Inr \<lparr>graphBasePresent = (graphBasePresent call \<or> ''.'' \<in> set xs),
          alts = alts call @ map hd (real_alts xs)\<rparr>"
proof (induction xs arbitrary: call)
  case Nil
  then show ?case by (simp add: real_alts_def)
next
  case (Cons t xs)
  consider "t = ''-''" | "t = ''.''" | "t \<noteq> ''-''" "t \<noteq> ''.''" by blast
  then show ?case
  proof cases
    case 1
    with Cons.prems Cons.IH [of call] show ?thesis
      by (simp add: BaseCall_token_def real_alts_Cons)
  next
    case 2
    with Cons.prems Cons.IH [of "call\<lparr>graphBasePresent := True\<rparr>"] show ?thesis
      by (simp add: BaseCall_token_def real_alts_Cons)
  next
    case 3
    with Cons.prems have l: "length t = 1" and n: "length (alts call) < MAX_ALTS"
      by (simp_all add: real_alts_Cons)
    from l have h: "t ! 0 = hd t" by (cases t) simp_all
    from 3 l n h Cons.prems Cons.IH [of "call\<lparr>alts := alts call @ [t ! 0]\<rparr>"] show ?thesis
      by (simp add: BaseCall_token_def real_alts_Cons numberOfAlts_def)
  qed
qed

lemma BaseCall_loop_fatal:
  "length (alts call) \<le> MAX_ALTS \<Longrightarrow>
   \<not> ((\<forall>t \<in> set (real_alts xs). length t = 1) \<and>
      length (alts call) + length (real_alts xs) \<le> MAX_ALTS) \<Longrightarrow>
   isl (BaseCall_loop call xs)"
proof (induction xs arbitrary: call)
  case Nil
  then show ?case by (simp add: real_alts_def)
next
  case (Cons t xs)
  consider "t = ''-''" | "t = ''.''" | "t \<noteq> ''-''" "t \<noteq> ''.''" by blast
  then show ?case
  proof cases
    case 1
    with Cons.prems Cons.IH [of call] show ?thesis
      by (simp add: BaseCall_token_def real_alts_Cons)
  next
    case 2
    with Cons.prems Cons.IH [of "call\<lparr>graphBasePresent := True\<rparr>"] show ?thesis
      by (simp add: BaseCall_token_def real_alts_Cons)
  next
    case 3
    show ?thesis
    proof (cases "length t = 1 \<and> length (alts call) < MAX_ALTS")
      case True
      with 3 Cons.prems Cons.IH [of "call\<lparr>alts := alts call @ [t ! 0]\<rparr>"] show ?thesis
        by (simp add: BaseCall_token_def real_alts_Cons numberOfAlts_def)
    next
      case False
      with 3 show ?thesis
        by (auto simp: BaseCall_token_def numberOfAlts_def)
    qed
  qed
qed

lemma filter_sorted_list_of_set:
  "finite S \<Longrightarrow> filter P (sorted_list_of_set S) = sorted_list_of_set {x \<in> S. P x}"
  by (rule sorted_distinct_set_unique) (auto simp: sorted_filter [where f = "\<lambda>x. x", simplified])

lemma real_alts_sorted_list_of_set:
  "finite S \<Longrightarrow> real_alts (sorted_list_of_set S) = sorted_list_of_set (S - {''-'', ''.''})"
proof -
  assume "finite S"
  have "{x \<in> S. x \<noteq> ''-'' \<and> x \<noteq> ''.''} = S - {''-'', ''.''}" by auto
  with \<open>finite S\<close> show ?thesis by (simp add: real_alts_def filter_sorted_list_of_set)
qed

text \<open>
  Claim C7. For every (finite) set of call tokens: when every token other than \<open>-\<close> and
  \<open>.\<close> is a single character and there are at most two of them, the constructor returns
  the BaseCall whose \<open>graphBasePresent\<close> is true exactly when the set contains \<open>.\<close> and
  whose alts are those other tokens (so \<open>-\<close> is ignored, and there are at most two);
  otherwise, that is with a third distinct alt or a token that is not one character long,
  the constructor ends the run.
\<close>

theorem BaseCall_of_tokens:
  assumes "finite altSet"
  shows "if (\<forall>t \<in> altSet - {''-'', ''.''}. length t = 1) \<and>
            card (altSet - {''-'', ''.''}) \<le> MAX_ALTS
         then BaseCall_of altSet =
                Inr \<lparr>graphBasePresent = (''.'' \<in> altSet),
                     alts = map hd (sorted_list_of_set (altSet - {''-'', ''.''}))\<rparr>
         else isl (BaseCall_of altSet)"
proof -
  let ?xs = "sorted_list_of_set altSet"
  have ra: "real_alts ?xs = sorted_list_of_set (altSet - {''-'', ''.''})"
    using assms by (rule real_alts_sorted_list_of_set)
  have len: "length (real_alts ?xs) = card (altSet - {''-'', ''.''})"
    using assms by (simp add: ra)
  have st: "set (real_alts ?xs) = altSet - {''-'', ''.''}"
    using assms by (simp add: ra)
  show ?thesis
  proof (cases "(\<forall>t \<in> altSet - {''-'', ''.''}. length t = 1) \<and>
                card (altSet - {''-'', ''.''}) \<le> MAX_ALTS")
    case True
    then have "BaseCall_loop BaseCall_default ?xs =
       Inr \<lparr>graphBasePresent = (graphBasePresent BaseCall_default \<or> ''.'' \<in> set ?xs),
            alts = alts BaseCall_default @ map hd (real_alts ?xs)\<rparr>"
      by (intro BaseCall_loop_ok) (simp_all add: st len BaseCall_default_def)
    with True assms show ?thesis
      by (simp add: BaseCall_of_def ra BaseCall_default_def)
  next
    case False
    then have "isl (BaseCall_loop BaseCall_default ?xs)"
      by (intro BaseCall_loop_fatal) (simp_all add: st len BaseCall_default_def MAX_ALTS_def)
    with False show ?thesis
      by (simp only: BaseCall_of_def if_False)
  qed
qed

text \<open>
  The examples of the claim: \<open>{".", "A"}\<close> gives a present base with the alt A; the set
  made from the tokens \<open>-\<close> and \<open>-\<close> gives an absent base with no alt; three alts and a
  two-character alt end the run.
\<close>

theorem BaseCall_of_tokens_witness:
  "BaseCall_of {''.'', ''A''} = Inr \<lparr>graphBasePresent = True, alts = ''A''\<rparr> \<and>
   BaseCall_of (set [''-'', ''-'']) = Inr \<lparr>graphBasePresent = False, alts = []\<rparr> \<and>
   isl (BaseCall_of {''A'', ''C'', ''G''}) \<and>
   isl (BaseCall_of {''AC''})"
proof -
  have a: "{''.'', ''A''} - {''-'', ''.''} = {''A''}" by auto
  have b: "{''-''} - {''-'', ''.''} = ({} :: string set)" by auto
  have c: "{''A'', ''C'', ''G''} - {''-'', ''.''} = {''A'', ''C'', ''G''}" by auto
  have d: "{''AC''} - {''-'', ''.''} = {''AC''}" by auto
  show ?thesis
    using BaseCall_of_tokens [of "{''.'', ''A''}"] BaseCall_of_tokens [of "{''-''}"]
      BaseCall_of_tokens [of "{''A'', ''C'', ''G''}"] BaseCall_of_tokens [of "{''AC''}"]
    by (simp add: a b c d MAX_ALTS_def)
qed

section \<open>Properties of the call file parser\<close>

lemma split_call_empty: "split_call [] = [[]]"
  by (simp add: split_call_def)

lemma BaseCall_of_empty_token: "BaseCall_of {[]} = Inl AltTokenSize"
  by (simp add: BaseCall_of_def BaseCall_token_def)

lemma read_fields_call:
  "snd (snd (snd (read_fields junk line))) =
   snd (extract_string (fst (extract_char (fst (extract_size_t
     (fst (extract_int64 \<lparr>unread = line, failbit = False\<rparr> (fst junk))) (snd junk))) (CHR 0x00))) [])"
  by (simp add: read_fields_def Let_def split: prod.splits)

lemma extract_int64_stream: "fst (extract_int64 s h) = fst (extract_int64 s h')"
  by (simp add: extract_int64_def Let_def split: option.splits prod.splits)

lemma extract_size_t_stream: "fst (extract_size_t s h) = fst (extract_size_t s h')"
  by (simp add: extract_size_t_def Let_def split: option.splits prod.splits)

text \<open>The call string is the same whatever the uninitialised locals hold.\<close>

lemma read_fields_call_field: "snd (snd (snd (read_fields junk line))) = call_field line"
  by (simp add: call_field_def read_fields_call
      extract_int64_stream [of _ "fst junk" 0] extract_size_t_stream [of _ "snd junk" 0])

lemma sentry_exhausted: "exhausted s \<Longrightarrow> sentry s = None"
  by (auto simp: exhausted_def sentry_def all_space_def list_all_iff split: list.splits)
    (metis dropWhile_eq_Nil_conv list.distinct(1))

lemma exhausted_failbit: "failbit s \<Longrightarrow> exhausted s"
  by (simp add: exhausted_def)

lemma extract_string_exhausted: "exhausted s \<Longrightarrow> snd (extract_string s []) = []"
  by (simp add: extract_string_def sentry_exhausted)

lemma extract_size_t_exhausted: "exhausted s \<Longrightarrow> exhausted (fst (extract_size_t s h))"
  by (simp add: extract_size_t_def sentry_exhausted set_failbit_def exhausted_def)

lemma extract_char_exhausted: "exhausted s \<Longrightarrow> exhausted (fst (extract_char s h))"
  by (simp add: extract_char_def sentry_exhausted set_failbit_def exhausted_def)

lemma isdigit_not_space: "isdigit c \<Longrightarrow> \<not> isspace c"
  by (auto simp: isdigit_def isspace_def less_eq_char_def)

lemma isdigit_not_sign: "isdigit c \<Longrightarrow> c \<noteq> CHR ''-'' \<and> c \<noteq> CHR ''+''"
  by (auto simp: isdigit_def less_eq_char_def)

lemma isspace_not_digit: "isspace c \<Longrightarrow> \<not> isdigit c"
  using isdigit_not_space by blast

lemma sentry_number:
  assumes "all_digits ds" "\<not> failbit s" "all_space sp" "unread s = sp @ ds @ rest"
  shows "sentry s = Some (ds @ rest) \<and> read_sign (ds @ rest) = (False, ds @ rest)"
proof -
  from assms(1) obtain d ds' where ds: "ds = d # ds'" and d: "isdigit d"
    by (cases ds) (auto simp: all_digits_def)
  have dw: "dropWhile isspace (sp @ ds @ rest) = ds @ rest"
    using assms(3) d ds by (simp add: all_space_def list_all_iff dropWhile_append isdigit_not_space)
  show ?thesis
    using assms(2,4) dw ds isdigit_not_sign [OF d] by (simp add: sentry_def read_sign_def)
qed

lemma digits_then_space:
  assumes "all_digits ds" "rest = [] \<or> isspace (hd rest)"
  shows "takeWhile isdigit (ds @ rest) = ds" "dropWhile isdigit (ds @ rest) = rest"
  using assms by (cases rest; auto simp: all_digits_def list_all_iff isspace_not_digit dropWhile_append)+

lemma extract_int64_number:
  assumes "all_digits ds" "rest = [] \<or> isspace (hd rest)" "\<not> failbit s" "all_space sp"
    "unread s = sp @ ds @ rest"
  shows "exhausted (fst (extract_int64 s h)) \<or> fst (extract_int64 s h) = \<lparr>unread = rest, failbit = False\<rparr>"
  using sentry_number [OF assms(1,3,4,5)] digits_then_space [OF assms(1,2)] assms(1)
  by (simp add: extract_int64_def set_failbit_def Let_def exhausted_def all_digits_def)

lemma extract_size_t_number:
  assumes "all_digits ds" "rest = [] \<or> isspace (hd rest)" "\<not> failbit s" "all_space sp"
    "unread s = sp @ ds @ rest"
  shows "exhausted (fst (extract_size_t s h)) \<or> fst (extract_size_t s h) = \<lparr>unread = rest, failbit = False\<rparr>"
  using sentry_number [OF assms(1,3,4,5)] digits_then_space [OF assms(1,2)] assms(1)
  by (simp add: extract_size_t_def set_failbit_def Let_def exhausted_def all_digits_def)

lemma extract_char_one:
  assumes "\<not> isspace b" "all_space sp" "\<not> failbit s" "unread s = sp @ b # rest"
  shows "fst (extract_char s h) = \<lparr>unread = rest, failbit = False\<rparr>"
proof -
  have "dropWhile isspace (sp @ b # rest) = b # rest"
    using assms(1,2) by (simp add: all_space_def list_all_iff dropWhile_append)
  with assms(3,4) show ?thesis by (simp add: extract_char_def sentry_def)
qed

lemma all_space_hd: "all_space sp \<Longrightarrow> all_space sp' \<Longrightarrow> sp \<noteq> [] \<Longrightarrow> isspace (hd (sp @ r))"
  by (cases sp) (simp_all add: all_space_def)

text \<open>
  A line that is not empty and holds only white space, or ends after the node id, after
  the offset or after the graph base, where the node id and the offset are runs of digits
  and the graph base is one character, each a token of its own, leaves nothing for the
  call string.
\<close>

lemma call_field_missing_field:
  assumes i: "all_digits i" and o: "all_digits ofs" and b: "\<not> isspace b"
    and sp: "all_space s0" "all_space s1" "s1 \<noteq> []" "all_space s2" "s2 \<noteq> []" "all_space s3"
    and line: "line = s0 @ s3 \<or> line = s0 @ i @ s3 \<or> line = s0 @ i @ s1 @ ofs @ s3 \<or>
               line = s0 @ i @ s1 @ ofs @ s2 @ [b] @ s3"
  shows "call_field line = []"
proof -
  let ?t0 = "\<lparr>unread = line, failbit = False\<rparr>"
  let ?t1 = "fst (extract_int64 ?t0 0)"
  let ?t2 = "fst (extract_size_t ?t1 0)"
  let ?t3 = "fst (extract_char ?t2 (CHR 0x00))"
  have sp3: "s3 = [] \<or> isspace (hd s3)"
    using sp(6) by (cases s3) (simp_all add: all_space_def)
  have "exhausted ?t3"
    using line
  proof (elim disjE)
    assume l: "line = s0 @ s3"
    then have "exhausted ?t0" using sp by (simp add: exhausted_def all_space_def)
    then have "exhausted ?t1"
      by (simp add: extract_int64_def sentry_exhausted set_failbit_def exhausted_def)
    then show ?thesis by (intro extract_char_exhausted extract_size_t_exhausted)
  next
    assume l: "line = s0 @ i @ s3"
    have "exhausted ?t1 \<or> ?t1 = \<lparr>unread = s3, failbit = False\<rparr>"
      by (rule extract_int64_number [OF i sp3 _ sp(1)]) (simp_all add: l)
    then have "exhausted ?t1" using sp(6) by (auto simp: exhausted_def)
    then show ?thesis by (intro extract_char_exhausted extract_size_t_exhausted)
  next
    assume l: "line = s0 @ i @ s1 @ ofs @ s3"
    have "exhausted ?t1 \<or> ?t1 = \<lparr>unread = s1 @ ofs @ s3, failbit = False\<rparr>"
      by (rule extract_int64_number [OF i _ _ sp(1)]) (simp_all add: l all_space_hd [OF sp(2) sp(2) sp(3)])
    then have "exhausted ?t2"
    proof
      assume "exhausted ?t1" then show ?thesis by (rule extract_size_t_exhausted)
    next
      assume t1: "?t1 = \<lparr>unread = s1 @ ofs @ s3, failbit = False\<rparr>"
      have "exhausted ?t2 \<or> ?t2 = \<lparr>unread = s3, failbit = False\<rparr>"
        by (rule extract_size_t_number [OF o sp3 _ sp(2)]) (simp_all add: t1)
      then show ?thesis using sp(6) by (auto simp: exhausted_def)
    qed
    then show ?thesis by (rule extract_char_exhausted)
  next
    assume l: "line = s0 @ i @ s1 @ ofs @ s2 @ [b] @ s3"
    have "exhausted ?t1 \<or> ?t1 = \<lparr>unread = s1 @ ofs @ s2 @ [b] @ s3, failbit = False\<rparr>"
      by (rule extract_int64_number [OF i _ _ sp(1)]) (simp_all add: l all_space_hd [OF sp(2) sp(2) sp(3)])
    then have "exhausted ?t2 \<or> ?t2 = \<lparr>unread = s2 @ [b] @ s3, failbit = False\<rparr>"
    proof
      assume "exhausted ?t1" then show ?thesis by (simp add: extract_size_t_exhausted)
    next
      assume t1: "?t1 = \<lparr>unread = s1 @ ofs @ s2 @ [b] @ s3, failbit = False\<rparr>"
      show ?thesis
        by (rule extract_size_t_number [OF o _ _ sp(2)]) (simp_all add: t1 all_space_hd [OF sp(4) sp(4) sp(5)])
    qed
    then show ?thesis
    proof
      assume "exhausted ?t2" then show ?thesis by (rule extract_char_exhausted)
    next
      assume t2: "?t2 = \<lparr>unread = s2 @ [b] @ s3, failbit = False\<rparr>"
      have "?t3 = \<lparr>unread = s3, failbit = False\<rparr>"
        by (rule extract_char_one [OF b sp(4)]) (simp_all add: t2)
      then show ?thesis using sp(6) by (simp add: exhausted_def)
    qed
  qed
  then show ?thesis
    by (simp only: read_fields_call_field [of "(0, 0)" line, symmetric] read_fields_call
        fst_conv snd_conv extract_string_exhausted)
qed

text \<open>A line that ends the run wherever it is reached ends the run of the whole file.\<close>

lemma glenn_lines_fatal_line:
  assumes "line \<noteq> []" and "\<And>calls. isl (glenn_line capacity junk calls line)"
  shows "isl (glenn_lines capacity junk calls (pre @ line # rest))"
proof (induction pre arbitrary: calls)
  case Nil
  from assms(2) [of calls] obtain e where "glenn_line capacity junk calls line = Inl e"
    by (cases "glenn_line capacity junk calls line") simp_all
  with assms(1) show ?case by simp
next
  case (Cons p pre)
  show ?case
  proof (cases "glenn_line capacity junk calls p")
    case (Inl e)
    with Cons.IH [of calls] show ?thesis by simp
  next
    case (Inr calls')
    with Cons.IH [of calls] Cons.IH [of calls'] show ?thesis by simp
  qed
qed

text \<open>
  Claim C6, as amended. A line that is not empty and on which the four extractions leave
  the call string empty (the stream failed or ran out before a fourth field was read) ends
  the run, whatever the uninitialised locals hold and however much memory there is:
  either the resize of the node's vector throws, or, when it does not, the token set is
  the set of the empty string and the size assertion of the BaseCall constructor fails.
  So a call file with such a line is never read to its end: no line is skipped.
\<close>

theorem glenn_line_without_call:
  assumes "line \<noteq> []" and "call_field line = []"
  shows "(glenn_line capacity junk calls line = Inl ResizeFailed \<or>
          glenn_line capacity junk calls line = Inl AltTokenSize) \<and>
         isl (glenn_lines capacity junk calls0 (pre @ line # rest))"
proof -
  from assms(2) have "snd (snd (snd (read_fields junk line))) = []"
    by (simp only: read_fields_call_field)
  then have f: "glenn_line capacity junk c line = Inl ResizeFailed \<or>
                glenn_line capacity junk c line = Inl AltTokenSize" for c
    by (cases "read_fields junk line")
      (simp add: glenn_line_def split_call_empty BaseCall_of_empty_token Let_def)
  have "isl (glenn_line capacity junk c line)" for c
    using f [of c] by auto
  with assms(1) have "isl (glenn_lines capacity junk calls0 (pre @ line # rest))"
    by (rule glenn_lines_fatal_line)
  with f [of calls] show ?thesis by simp
qed

lemmas parse_defs = glenn_line_def read_fields_def extract_int64_def extract_size_t_def extract_char_def extract_string_def
  sentry_def set_failbit_def read_sign_def isspace_def isdigit_def digits_value_def split_call_def SIZE_MAX_def
  BaseCall_of_def BaseCall_token_def BaseCall_default_def numberOfAlts_def MAX_ALTS_def resize_def no_calls_def
  resize_throws_def

text \<open>
  The lines \<open>5 1 A\<close>, \<open>5 1\<close>, \<open>5\<close>, a single blank, \<open>x\<close>, \<open>5 x\<close>, \<open>-5 1 A\<close> and \<open>5 A .\<close>
  leave the call string empty and end the run, alone and between two well-formed lines.
\<close>

theorem glenn_line_without_call_witness:
  "list_all
     (\<lambda>l. l \<noteq> [] \<and> call_field l = [] \<and>
          isl (glenn_line 100 (7, 3) no_calls l) \<and>
          isl (glenn_lines 100 (7, 3) no_calls [''5 1 T .'', l, ''4 1 G .'']))
     [''5 1 A'', ''5 1'', ''5'', '' '', ''x'', ''5 x'', ''-5 1 A'', ''5 A .'']"
proof -
  have c: "call_field ''5 1 A'' = []" "call_field ''5 1'' = []" "call_field ''5'' = []"
    "call_field '' '' = []" "call_field ''x'' = []" "call_field ''5 x'' = []"
    "call_field ''-5 1 A'' = []" "call_field ''5 A .'' = []"
    by (simp_all add: call_field_def read_fields_def extract_int64_def extract_size_t_def
        extract_char_def extract_string_def sentry_def set_failbit_def read_sign_def
        isspace_def isdigit_def digits_value_def SIZE_MAX_def)
  have f: "isl (glenn_line 100 (7, 3) no_calls l) \<and>
           isl (glenn_lines 100 (7, 3) no_calls [''5 1 T .'', l, ''4 1 G .''])"
    if "l \<noteq> []" "call_field l = []" for l
    using glenn_line_without_call [OF that, of 100 "(7, 3)" no_calls no_calls
        "[''5 1 T .'']" "[''4 1 G .'']"]
    by auto
  show ?thesis
    using c f by simp
qed

text \<open>
  Which of the two ends the run depends on the uninitialised offset and on the memory.
  On the line \<open>5\<close> the offset keeps what it held: with 3 the vector grows to three slots
  and the assertion fails, with 1000 and room for 100 slots the resize throws. On the
  line \<open>5 -1 A .\<close> the offset wraps around and the resize throws whatever the memory.
\<close>

lemma glenn_line_fatal_cause:
  "glenn_line 100 (7, 3) no_calls ''5'' = Inl AltTokenSize"
  "glenn_line 100 (7, 1000) no_calls ''5'' = Inl ResizeFailed"
  "glenn_line capacity junk no_calls ''5 -1 A .'' = Inl ResizeFailed"
  by (simp_all add: parse_defs)

text \<open>
  Claim C6 as stated fails: the line \<open>5 1 AC\<close> has three white-space separated
  tokens, and the run goes on. The extraction of a \<^verbatim>\<open>char\<close> takes the A, the extraction of
  the call string takes the C, and node 5 gets a call with the alt C at offset 0.
\<close>

theorem glenn_line_run_together:
  "''5 1 AC'' \<noteq> [] \<and> length (ws_tokens ''5 1 AC'') < 4 \<and>
   \<not> isl (glenn_line 100 (7, 3) no_calls ''5 1 AC'') \<and>
   projr (glenn_line 100 (7, 3) no_calls ''5 1 AC'') 5 = [\<lparr>graphBasePresent = False, alts = ''C''\<rparr>]"
  by (simp add: parse_defs ws_tokens_def)

section \<open>Properties of the reference tracer\<close>

lemma trace_mapping_Inr:
  assumes "trace_mapping vg st m = Inr st'"
  obtains n where "get_node vg (position_node_id m) = Some n"
    "referenceBase st' = referenceBase st + length (sequence n)"
    "refSeq st' = refSeq st @ sequence n"
    "referencePositionAndOrientation st' =
       (if referencePositionAndOrientation st (position_node_id m) = None
        then (referencePositionAndOrientation st)(position_node_id m \<mapsto> (referenceBase st, is_reverse m))
        else referencePositionAndOrientation st)"
    "nodesByReference st' = (nodesByReference st)
       (referenceBase st \<mapsto> \<lparr>node = position_node_id m, backward = is_reverse m\<rparr>)"
  using assms
  by (auto simp: trace_mapping_def Let_def split: if_splits option.splits)

lemma trace_loop_in_graph:
  "trace_loop vg st path = Inr st' \<Longrightarrow> path_in_graph vg path"
proof (induction path arbitrary: st)
  case Nil
  then show ?case by (simp add: path_in_graph_def)
next
  case (Cons m path)
  from Cons.prems obtain st1 where s1: "trace_mapping vg st m = Inr st1"
    and r: "trace_loop vg st1 path = Inr st'"
    by (auto split: sum.splits)
  from s1 obtain n where "get_node vg (position_node_id m) = Some n"
    by (rule trace_mapping_Inr)
  with Cons.IH [OF r] show ?case by (simp add: path_in_graph_def)
qed

lemma path_steps_shift:
  "map snd (path_steps vg c path) = map snd (path_steps vg c' path)"
  by (induction path arbitrary: c c') (auto split: option.splits)

lemma trace_loop_refSeq:
  "trace_loop vg st path = Inr st' \<Longrightarrow>
   refSeq st' = refSeq st @ path_sequence vg path \<and>
   referenceBase st' = referenceBase st + length (path_sequence vg path)"
proof (induction path arbitrary: st)
  case Nil
  then show ?case by (simp add: path_sequence_def)
next
  case (Cons m path)
  from Cons.prems obtain st1 where s1: "trace_mapping vg st m = Inr st1"
    and r: "trace_loop vg st1 path = Inr st'"
    by (auto split: sum.splits)
  from s1 obtain n where n: "get_node vg (position_node_id m) = Some n"
    "referenceBase st1 = referenceBase st + length (sequence n)"
    "refSeq st1 = refSeq st @ sequence n"
    by (rule trace_mapping_Inr)
  have "map snd (path_steps vg (length (sequence n)) path) = map snd (path_steps vg 0 path)"
    by (rule path_steps_shift)
  then have "map (\<lambda>(c, n). sequence n) (path_steps vg (length (sequence n)) path)
     = map (\<lambda>(c, n). sequence n) (path_steps vg 0 path)"
    by (metis (no_types, lifting) case_prod_unfold map_map o_def map_eq_conv)
  then have "path_sequence vg (m # path) = sequence n @ path_sequence vg path"
    using n(1) by (simp add: path_sequence_def)
  with Cons.IH [OF r] n show ?case by simp
qed

lemma trace_loop_placement:
  "trace_loop vg st path = Inr st' \<Longrightarrow>
   referencePositionAndOrientation st' i =
     (case referencePositionAndOrientation st i of
        Some p \<Rightarrow> Some p
      | None \<Rightarrow> first_placement vg (referenceBase st) path i)"
proof (induction path arbitrary: st)
  case Nil
  then show ?case by (simp split: option.splits)
next
  case (Cons m path)
  from Cons.prems obtain st1 where s1: "trace_mapping vg st m = Inr st1"
    and r: "trace_loop vg st1 path = Inr st'"
    by (auto split: sum.splits)
  from s1 obtain n where n: "get_node vg (position_node_id m) = Some n"
    "referenceBase st1 = referenceBase st + length (sequence n)"
    "referencePositionAndOrientation st1 =
       (if referencePositionAndOrientation st (position_node_id m) = None
        then (referencePositionAndOrientation st)(position_node_id m \<mapsto> (referenceBase st, is_reverse m))
        else referencePositionAndOrientation st)"
    by (rule trace_mapping_Inr)
  show ?case
    using Cons.IH [OF r] n by (auto split: option.splits)
qed

lemma trace_loop_index:
  "trace_loop vg st path = Inr st' \<Longrightarrow>
   nodesByReference st' k =
     (case step_at vg (referenceBase st) path k of
        Some t \<Rightarrow> Some t
      | None \<Rightarrow> nodesByReference st k)"
proof (induction path arbitrary: st)
  case Nil
  then show ?case by simp
next
  case (Cons m path)
  from Cons.prems obtain st1 where s1: "trace_mapping vg st m = Inr st1"
    and r: "trace_loop vg st1 path = Inr st'"
    by (auto split: sum.splits)
  from s1 obtain n where n: "get_node vg (position_node_id m) = Some n"
    "referenceBase st1 = referenceBase st + length (sequence n)"
    "nodesByReference st1 = (nodesByReference st)
       (referenceBase st \<mapsto> \<lparr>node = position_node_id m, backward = is_reverse m\<rparr>)"
    by (rule trace_mapping_Inr)
  show ?case
    using Cons.IH [OF r] n by (auto split: option.splits)
qed

lemma steps_length_append:
  "steps_length (xs @ ys) = steps_length xs + steps_length ys"
  by (simp add: steps_length_def)

lemma steps_length_take_Suc:
  "j < length xs \<Longrightarrow>
   steps_length (take (Suc j) xs) = steps_length (take j xs) + length (sequence (snd (xs ! j)))"
  by (simp add: take_Suc_conv_app_nth steps_length_def case_prod_unfold)

lemma steps_length_take_mono:
  "j \<le> k \<Longrightarrow> steps_length (take j xs) \<le> steps_length (take k xs)"
proof -
  assume "j \<le> k"
  then obtain d where "k = j + d" using le_Suc_ex by blast
  then show ?thesis by (simp add: take_add steps_length_append)
qed

lemma path_steps_length:
  "path_in_graph vg path \<Longrightarrow> length (path_steps vg c path) = length path"
  by (induction path arbitrary: c) (auto simp: path_in_graph_def)

lemma path_steps_node:
  "k < length (path_steps vg c path) \<Longrightarrow>
   get_node vg (position_node_id (path ! k)) = Some (snd (path_steps vg c path ! k))"
proof (induction path arbitrary: c k)
  case Nil
  then show ?case by simp
next
  case (Cons m path)
  then show ?case by (cases k) (auto split: option.splits)
qed

lemma path_steps_coordinate:
  "k < length (path_steps vg c path) \<Longrightarrow>
   fst (path_steps vg c path ! k) = c + steps_length (take k (path_steps vg c path))"
proof (induction path arbitrary: c k)
  case Nil
  then show ?case by simp
next
  case (Cons m path)
  then show ?case
    by (cases k) (auto simp: steps_length_def split: option.splits)
qed

lemma path_steps_apart:
  assumes "j < k" "k < length (path_steps vg c path)"
  shows "fst (path_steps vg c path ! j) + length (sequence (snd (path_steps vg c path ! j)))
         \<le> fst (path_steps vg c path ! k)"
proof -
  let ?xs = "path_steps vg c path"
  have "steps_length (take (Suc j) ?xs) \<le> steps_length (take k ?xs)"
    using assms(1) by (intro steps_length_take_mono) simp
  moreover have "steps_length (take (Suc j) ?xs) =
      steps_length (take j ?xs) + length (sequence (snd (?xs ! j)))"
    using assms by (intro steps_length_take_Suc) simp
  ultimately show ?thesis
    using assms by (simp add: path_steps_coordinate)
qed

lemma first_placement_first:
  assumes "k < length (path_steps vg c path)"
    "\<forall>j<k. position_node_id (path ! j) \<noteq> position_node_id (path ! k)"
  shows "first_placement vg c path (position_node_id (path ! k)) =
         Some (fst (path_steps vg c path ! k), is_reverse (path ! k))"
  using assms
proof (induction path arbitrary: c k)
  case Nil
  then show ?case by simp
next
  case (Cons m path)
  show ?case
  proof (cases k)
    case 0
    with Cons.prems show ?thesis by (auto split: option.splits)
  next
    case (Suc k')
    from Cons.prems(1) obtain n where n: "get_node vg (position_node_id m) = Some n"
      by (auto split: option.splits)
    from Cons.prems(2) Suc have ne: "position_node_id m \<noteq> position_node_id (path ! k')"
      by auto
    from Cons.prems(2) Suc
    have d: "\<forall>j<k'. position_node_id (path ! j) \<noteq> position_node_id (path ! k')"
      by (metis Suc_less_eq nth_Cons_Suc)
    from Cons.prems(1) Suc n have l: "k' < length (path_steps vg (c + length (sequence n)) path)"
      by simp
    show ?thesis
      using Cons.IH [OF l d] n ne Suc by simp
  qed
qed

text \<open>
  What the tracer does on every path. When tracing the reference path succeeds, every step
  of the path is placed; the coordinate of step \<open>k\<close> is the total length of the nodes of
  the steps before it (the coordinate counter advances by each node's sequence length);
  the intervals of two steps do not overlap and their coordinates ascend in traversal
  order, strictly after a node whose sequence is not empty; the coordinate counter and
  the length of the reference sequence end at the total node length; and a node has the
  coordinate and orientation of the first step that visits it. When no node is visited
  twice, that is the placement of every step.
\<close>

lemma trace_reference_placements:
  assumes "get_path vg refPathName = Some path"
    and "trace_reference vg refPathName = Inr st"
  shows "length (path_steps vg 0 path) = length path \<and>
    (\<forall>k<length path.
       fst (path_steps vg 0 path ! k) = steps_length (take k (path_steps vg 0 path))) \<and>
    (\<forall>k<length path. \<forall>j<k.
       fst (path_steps vg 0 path ! j) + length (sequence (snd (path_steps vg 0 path ! j)))
         \<le> fst (path_steps vg 0 path ! k) \<and>
       (sequence (snd (path_steps vg 0 path ! j)) \<noteq> [] \<longrightarrow>
          fst (path_steps vg 0 path ! j) < fst (path_steps vg 0 path ! k))) \<and>
    referenceBase st = steps_length (path_steps vg 0 path) \<and>
    length (refSeq st) = steps_length (path_steps vg 0 path) \<and>
    (\<forall>k<length path.
       (\<forall>j<k. position_node_id (path ! j) \<noteq> position_node_id (path ! k)) \<longrightarrow>
       referencePositionAndOrientation st (position_node_id (path ! k)) =
         Some (fst (path_steps vg 0 path ! k), is_reverse (path ! k)))"
proof -
  from assms have tl: "trace_loop vg trace_init path = Inr st"
    by (simp add: trace_reference_def)
  let ?xs = "path_steps vg 0 path"
  from tl have ig: "path_in_graph vg path" by (rule trace_loop_in_graph)
  then have len: "length ?xs = length path" by (rule path_steps_length)
  have co: "\<forall>k<length path. fst (?xs ! k) = steps_length (take k ?xs)"
    using path_steps_coordinate [of _ vg 0 path] len by simp
  have ap: "\<forall>k<length path. \<forall>j<k.
       fst (?xs ! j) + length (sequence (snd (?xs ! j))) \<le> fst (?xs ! k) \<and>
       (sequence (snd (?xs ! j)) \<noteq> [] \<longrightarrow> fst (?xs ! j) < fst (?xs ! k))"
  proof (intro allI impI)
    fix k j assume "k < length path" "j < k"
    then have "fst (?xs ! j) + length (sequence (snd (?xs ! j))) \<le> fst (?xs ! k)"
      using path_steps_apart [of j k vg 0 path] len by simp
    then show "fst (?xs ! j) + length (sequence (snd (?xs ! j))) \<le> fst (?xs ! k) \<and>
       (sequence (snd (?xs ! j)) \<noteq> [] \<longrightarrow> fst (?xs ! j) < fst (?xs ! k))"
      by (cases "sequence (snd (?xs ! j))") simp_all
  qed
  have sq: "length (path_sequence vg path) = steps_length ?xs"
    by (simp add: path_sequence_def steps_length_def length_concat case_prod_unfold o_def)
  from trace_loop_refSeq [OF tl]
  have rs: "referenceBase st = steps_length ?xs" "length (refSeq st) = steps_length ?xs"
    by (simp_all add: trace_init_def sq)
  have pl: "\<forall>k<length path.
       (\<forall>j<k. position_node_id (path ! j) \<noteq> position_node_id (path ! k)) \<longrightarrow>
       referencePositionAndOrientation st (position_node_id (path ! k)) =
         Some (fst (?xs ! k), is_reverse (path ! k))"
  proof (intro allI impI)
    fix k assume k: "k < length path"
      and f: "\<forall>j<k. position_node_id (path ! j) \<noteq> position_node_id (path ! k)"
    from k len have "k < length ?xs" by simp
    from first_placement_first [OF this f] trace_loop_placement [OF tl]
    show "referencePositionAndOrientation st (position_node_id (path ! k)) =
         Some (fst (?xs ! k), is_reverse (path ! k))"
      by (simp add: trace_init_def)
  qed
  from len co ap rs pl show ?thesis by blast
qed

lemmas graph_defs = get_node_def trace_reference_def trace_mapping_def trace_init_def
  mapping_is_perfect_match_def forward_traversal_def

text \<open>
  Claim C8. The claim has the coordinates of the nodes of the reference path ascend
  strictly in traversal order, and the source counts on it: the comments at the two
  anchor searches and in the zygosity scan say that the reference positions are strictly
  ordered and that a reference node starts right after the previous one ends. The tracer
  does not keep that on a path with an empty node, and nothing guards against one. On the
  path over node 1, which has no bases, and node 2, both visited once, tracing succeeds
  and places both nodes at coordinate 0; the coordinate index, which has one entry per
  coordinate, keeps node 2 there and loses node 1.
\<close>

theorem empty_node_not_ascending:
  "get_path empty_node_graph ''ref'' =
     Some [\<lparr>position_node_id = 1, is_reverse = False, edit = []\<rparr>,
           \<lparr>position_node_id = 2, is_reverse = False, edit = []\<rparr>] \<and>
   \<not> isl (trace_reference empty_node_graph ''ref'') \<and>
   referencePositionAndOrientation (projr (trace_reference empty_node_graph ''ref'')) 1 = Some (0, False) \<and>
   referencePositionAndOrientation (projr (trace_reference empty_node_graph ''ref'')) 2 = Some (0, False) \<and>
   nodesByReference (projr (trace_reference empty_node_graph ''ref'')) 0 =
     Some \<lparr>node = 2, backward = False\<rparr>"
  by (simp add: empty_node_graph_def graph_defs)

subsection \<open>The worked example, evaluated\<close>

lemma example_get_path: "get_path example_graph ''ref'' = Some example_path"
  by (simp add: example_graph_def example_path_def)

lemma example_trace_reference: "trace_reference example_graph ''ref'' = Inr example_trace"
  by (simp add: example_graph_def graph_defs example_trace_def eval_nat_numeral)

lemma example_path_steps:
  "path_steps example_graph 0 example_path =
     [(0, \<lparr>node_id = 1, sequence = ''ACGCA''\<rparr>), (5, \<lparr>node_id = 2, sequence = ''C''\<rparr>),
      (6, \<lparr>node_id = 3, sequence = ''GT''\<rparr>)]"
  by (simp add: example_graph_def example_path_def get_node_def)

lemma glenn_line_stored:
  assumes "read_fields junk line = (nodeId, offset, graphBase, call)"
    and "offset < SIZE_MAX div 4" and "offset < capacity"
    and "BaseCall_of (set (split_call call)) = Inr baseCall"
  shows "glenn_line capacity junk calls line =
         Inr (calls(nodeId := (resize (calls nodeId) (max (length (calls nodeId)) (offset + 1)))
                                [offset := baseCall]))"
proof -
  have m: "(offset + 1) mod 2 ^ 64 = offset + 1"
    using assms(2) by (simp add: SIZE_MAX_def)
  have t: "\<not> resize_throws capacity (calls nodeId) (offset + 1)"
    using assms(2,3) by (simp add: resize_throws_def)
  have r: "resize (calls nodeId) (length (calls nodeId)) = calls nodeId"
    by (simp add: resize_def)
  show ?thesis
    using assms(1,4) m r t
    by (auto simp: glenn_line_def Let_def resize_def max_def)
qed

lemmas read_defs = read_fields_def extract_int64_def extract_size_t_def extract_char_def
  extract_string_def sentry_def set_failbit_def read_sign_def isspace_def isdigit_def
  digits_value_def SIZE_MAX_def

lemmas call_defs = split_call_def BaseCall_of_def BaseCall_token_def BaseCall_default_def
  numberOfAlts_def MAX_ALTS_def

lemma example_fields:
  "read_fields junk ''1 5 A -'' = (1, 4, CHR ''A'', ''-'')"
  "read_fields junk ''1 4 C .,T'' = (1, 3, CHR ''C'', ''.,T'')"
  "read_fields junk ''2 1 C -'' = (2, 0, CHR ''C'', ''-'')"
  "read_fields junk ''3 2 T C,A'' = (3, 1, CHR ''T'', ''C,A'')"
  "read_fields junk ''4 2 G .'' = (4, 1, CHR ''G'', ''.'')"
  "read_fields junk ''4 1 G .'' = (4, 0, CHR ''G'', ''.'')"
  "read_fields junk ''5 2 T .'' = (5, 1, CHR ''T'', ''.'')"
  "read_fields junk ''5 1 T .'' = (5, 0, CHR ''T'', ''.'')"
  by (simp_all add: read_defs)

lemma example_BaseCalls:
  "BaseCall_of (set (split_call ''-'')) = Inr BaseCall_default"
  "BaseCall_of (set (split_call ''.,T'')) = Inr \<lparr>graphBasePresent = True, alts = ''T''\<rparr>"
  "BaseCall_of (set (split_call ''C,A'')) = Inr \<lparr>graphBasePresent = False, alts = ''AC''\<rparr>"
  "BaseCall_of (set (split_call ''.'')) = Inr \<lparr>graphBasePresent = True, alts = []\<rparr>"
  by (simp_all add: call_defs)

lemma example_glenn_lines:
  assumes "5 \<le> capacity"
  shows "glenn_lines capacity junk no_calls example_lines = Inr example_calls"
proof -
  have s: "(0::nat) < SIZE_MAX div 4" "(1::nat) < SIZE_MAX div 4" "(3::nat) < SIZE_MAX div 4"
    "(4::nat) < SIZE_MAX div 4"
    by (simp_all add: SIZE_MAX_def)
  have k: "0 < capacity" "1 < capacity" "3 < capacity" "4 < capacity"
    using assms by simp_all
  note g = glenn_line_stored [OF example_fields(1) s(4) k(4) example_BaseCalls(1)]
    glenn_line_stored [OF example_fields(2) s(3) k(3) example_BaseCalls(2)]
    glenn_line_stored [OF example_fields(3) s(1) k(1) example_BaseCalls(1)]
    glenn_line_stored [OF example_fields(4) s(2) k(2) example_BaseCalls(3)]
    glenn_line_stored [OF example_fields(5) s(2) k(2) example_BaseCalls(4)]
    glenn_line_stored [OF example_fields(6) s(1) k(1) example_BaseCalls(4)]
    glenn_line_stored [OF example_fields(7) s(2) k(2) example_BaseCalls(4)]
    glenn_line_stored [OF example_fields(8) s(1) k(1) example_BaseCalls(4)]
  show ?thesis
    by (simp add: example_lines_def g no_calls_def resize_def example_calls_def fun_eq_iff
        eval_nat_numeral BaseCall_default_def)
qed

lemmas example_glenn_lines_5 = example_glenn_lines [OF order_refl]

text \<open>
  On the example the path has three steps at the coordinates 0, 5 and 6, the reference
  sequence has eight bases, and the three nodes are placed at the coordinates of their
  steps.
\<close>

lemma trace_reference_placements_example:
  "get_path example_graph ''ref'' = Some example_path \<and>
   trace_reference example_graph ''ref'' = Inr example_trace \<and>
   map fst (path_steps example_graph 0 example_path) = [0, 5, 6] \<and>
   referenceBase example_trace = 8 \<and> length (refSeq example_trace) = 8 \<and>
   map (referencePositionAndOrientation example_trace) [1, 2, 3] =
     [Some (0, False), Some (5, False), Some (6, False)]"
  using trace_reference_placements [OF example_get_path example_trace_reference]
  by (simp add: example_path_steps steps_length_def example_trace_def example_get_path
      example_trace_reference)

lemma first_placement_ge:
  "first_placement vg c path i = Some (ci, r) \<Longrightarrow> c \<le> ci"
proof (induction path arbitrary: c)
  case Nil
  then show ?case by simp
next
  case (Cons m path)
  then show ?case
    by (fastforce split: if_splits option.splits)
qed

lemma first_placement_apart:
  assumes "first_placement vg c path a = Some (ca, ra)"
    and "first_placement vg c path b = Some (cb, rb)"
    and "ca < cb"
  shows "\<exists>na. get_node vg a = Some na \<and> ca + length (sequence na) \<le> cb"
  using assms
proof (induction path arbitrary: c)
  case Nil
  then show ?case by simp
next
  case (Cons m path)
  show ?case
  proof (cases "position_node_id m = a")
    case True
    with Cons.prems have ca: "ca = c" and ne: "position_node_id m \<noteq> b"
      by auto
    from Cons.prems(2) ne obtain n where n: "get_node vg (position_node_id m) = Some n"
      and fb: "first_placement vg (c + length (sequence n)) path b = Some (cb, rb)"
      by (auto split: option.splits)
    from first_placement_ge [OF fb] n True ca show ?thesis by simp
  next
    case False
    with Cons.prems(1) obtain n where n: "get_node vg (position_node_id m) = Some n"
      and fa: "first_placement vg (c + length (sequence n)) path a = Some (ca, ra)"
      by (auto split: option.splits)
    from first_placement_ge [OF fa] have "c \<le> ca" by simp
    with Cons.prems(2,3) have nb: "position_node_id m \<noteq> b" by auto
    with Cons.prems(2) n
    have fb: "first_placement vg (c + length (sequence n)) path b = Some (cb, rb)"
      by simp
    from Cons.IH [OF fa fb Cons.prems(3)] show ?thesis .
  qed
qed

lemma trace_reference_apart:
  assumes "trace_reference vg refPathName = Inr st"
    and "referencePositionAndOrientation st a = Some pa"
    and "referencePositionAndOrientation st b = Some pb"
    and "fst pa < fst pb"
  shows "\<exists>na. get_node vg a = Some na \<and> fst pa + length (sequence na) \<le> fst pb"
proof -
  from assms(1) obtain path where tl: "trace_loop vg trace_init path = Inr st"
    by (auto simp: trace_reference_def split: option.splits)
  from trace_loop_placement [OF tl] assms(2,3)
  have "first_placement vg 0 path a = Some (fst pa, snd pa)"
    "first_placement vg 0 path b = Some (fst pb, snd pb)"
    by (simp_all add: trace_init_def)
  from first_placement_apart [OF this assms(4)] show ?thesis .
qed

text \<open>
  Claim C10. Let the tables come from tracing the reference path, and let the in-anchor and
  the out-anchor (as they stand after the orientation check and the swap) both be placed,
  the out-anchor at a strictly greater coordinate, so that the duplication check passes.
  Then the in-anchor is a node of the graph, the out-anchor's coordinate is at least the
  in-anchor's coordinate plus the length of the in-anchor's sequence, so the assertion
  holds, and the body goes on with the reference interval between the two, whose length
  is not negative.
\<close>

theorem reference_interval_in_order:
  assumes "trace_reference vg refPathName = Inr st"
    and "referencePositionAndOrientation st (node leftmostInNode) = Some inNodePlacement"
    and "referencePositionAndOrientation st (node leftmostOutNode) = Some outNodePlacement"
    and "fst inNodePlacement < fst outNodePlacement"
  shows "\<exists>inNode. get_node vg (node leftmostInNode) = Some inNode \<and>
           fst inNodePlacement + length (sequence inNode) \<le> fst outNodePlacement \<and>
           oriented_node vg st calls altNode leftmostInNode leftmostOutNode =
             placed_node vg st calls altNode
               (fst inNodePlacement + length (sequence inNode)) (fst outNodePlacement)"
proof -
  from trace_reference_apart [OF assms]
  obtain inNode where n: "get_node vg (node leftmostInNode) = Some inNode"
    and le: "fst inNodePlacement + length (sequence inNode) \<le> fst outNodePlacement"
    by blast
  with assms(2,3,4) show ?thesis
    by (simp add: oriented_node_def Let_def)
qed


text \<open>
  On the example, node 1 (five bases, at coordinate 0) and node 3 (at coordinate 6) anchor
  node 4: the interval runs from 5 to 6.
\<close>

theorem reference_interval_in_order_witness:
  "trace_reference example_graph ''ref'' = Inr example_trace \<and>
   referencePositionAndOrientation example_trace (node (forward_traversal 1)) = Some (0, False) \<and>
   referencePositionAndOrientation example_trace (node (forward_traversal 3)) = Some (6, False) \<and>
   get_node example_graph 1 = Some \<lparr>node_id = 1, sequence = ''ACGCA''\<rparr> \<and>
   oriented_node example_graph example_trace example_calls (forward_traversal 4)
     (forward_traversal 1) (forward_traversal 3) =
   placed_node example_graph example_trace example_calls (forward_traversal 4) 5 6"
proof -
  have p: "referencePositionAndOrientation example_trace (node (forward_traversal 1)) = Some (0, False)"
    "referencePositionAndOrientation example_trace (node (forward_traversal 3)) = Some (6, False)"
    by (simp_all add: example_trace_def forward_traversal_def)
  have l: "fst (0::nat, False) < fst (6::nat, False)" by simp
  have g: "get_node example_graph 1 = Some \<lparr>node_id = 1, sequence = ''ACGCA''\<rparr>"
    by (simp add: example_graph_def get_node_def)
  show ?thesis
    using reference_interval_in_order [OF example_trace_reference p l,
        of example_calls "forward_traversal 4"] p g
    by (simp add: example_trace_reference forward_traversal_def eval_nat_numeral)
qed

section \<open>Properties of the call table\<close>

lemma BaseCall_of_Inr:
  assumes "finite S" "BaseCall_of S = Inr call"
  shows "(\<forall>t \<in> S - {''-'', ''.''}. length t = 1) \<and> card (S - {''-'', ''.''}) \<le> MAX_ALTS \<and>
         graphBasePresent call = (''.'' \<in> S) \<and>
         alts call = map hd (sorted_list_of_set (S - {''-'', ''.''}))"
proof -
  let ?xs = "sorted_list_of_set S"
  have ra: "real_alts ?xs = sorted_list_of_set (S - {''-'', ''.''})"
    using assms(1) by (rule real_alts_sorted_list_of_set)
  have len: "length (real_alts ?xs) = card (S - {''-'', ''.''})"
    using assms(1) by (simp add: ra)
  have st: "set (real_alts ?xs) = S - {''-'', ''.''}"
    using assms(1) by (simp add: ra)
  have ok: "(\<forall>t \<in> set (real_alts ?xs). length t = 1) \<and>
      length (alts BaseCall_default) + length (real_alts ?xs) \<le> MAX_ALTS"
  proof (rule ccontr)
    assume "\<not> ?thesis"
    then have "isl (BaseCall_loop BaseCall_default ?xs)"
      by (intro BaseCall_loop_fatal) (simp_all add: BaseCall_default_def MAX_ALTS_def)
    with assms(2) show False by (simp add: BaseCall_of_def)
  qed
  then have "BaseCall_loop BaseCall_default ?xs =
       Inr \<lparr>graphBasePresent = (graphBasePresent BaseCall_default \<or> ''.'' \<in> set ?xs),
            alts = alts BaseCall_default @ map hd (real_alts ?xs)\<rparr>"
    by (intro BaseCall_loop_ok) simp_all
  then have r: "BaseCall_of S =
       Inr \<lparr>graphBasePresent = (''.'' \<in> S), alts = map hd (sorted_list_of_set (S - {''-'', ''.''}))\<rparr>"
    using assms(1) by (simp add: BaseCall_of_def ra BaseCall_default_def)
  from ok have "(\<forall>t \<in> S - {''-'', ''.''}. length t = 1) \<and> card (S - {''-'', ''.''}) \<le> MAX_ALTS"
    unfolding st len by (simp add: BaseCall_default_def)
  with r assms(2) show ?thesis by auto
qed

lemma single_char_less:
  "length s = 1 \<Longrightarrow> length t = 1 \<Longrightarrow> s < t \<longleftrightarrow> hd s < hd t"
  by (cases s; cases t) simp_all

lemma sorted_wrt_map_hd:
  "sorted_wrt (<) xs \<Longrightarrow> \<forall>t \<in> set xs. length t = 1 \<Longrightarrow> sorted_wrt (<) (map hd (xs :: string list))"
  by (induction xs) (auto simp: single_char_less)

lemma BaseCall_of_valid:
  assumes "finite S" "BaseCall_of S = Inr call"
  shows "valid_call call"
proof -
  let ?T = "S - {''-'', ''.''}"
  from BaseCall_of_Inr [OF assms]
  have one: "\<forall>t \<in> ?T. length t = 1" and c: "card ?T \<le> MAX_ALTS"
    and a: "alts call = map hd (sorted_list_of_set ?T)"
    by simp_all
  have "sorted_wrt (<) (sorted_list_of_set ?T)"
    by (simp add: strict_sorted_iff [symmetric])
  then have "sorted_wrt (<) (map hd (sorted_list_of_set ?T))"
    using one assms(1) by (intro sorted_wrt_map_hd) simp_all
  with a c assms(1) show ?thesis
    by (simp add: valid_call_def numberOfAlts_def)
qed

lemma valid_call_default: "valid_call BaseCall_default"
  by (simp add: valid_call_def BaseCall_default_def numberOfAlts_def)

lemma glenn_line_valid:
  assumes "glenn_line capacity junk calls line = Inr calls'" "\<forall>n. list_all valid_call (calls n)"
  shows "\<forall>n. list_all valid_call (calls' n)"
proof -
  obtain nodeId offset graphBase call where f: "read_fields junk line = (nodeId, offset, graphBase, call)"
    by (cases "read_fields junk line") auto
  define vec where "vec = (if length (calls nodeId) \<le> offset
                 then resize (calls nodeId) ((offset + 1) mod 2 ^ 64)
                 else calls nodeId)"
  from assms(1) f obtain baseCall where b: "BaseCall_of (set (split_call call)) = Inr baseCall"
    and c: "calls' = calls(nodeId := vec[offset := baseCall])"
    unfolding vec_def
    by (auto simp: glenn_line_def Let_def split: sum.splits if_splits)
  have v: "list_all valid_call (calls nodeId)" using assms(2) by simp
  have "list_all valid_call (resize (calls nodeId) k)" for k
    using v by (auto simp: resize_def list_all_iff valid_call_default dest: in_set_takeD)
  with v have "list_all valid_call vec" by (simp add: vec_def)
  then have "list_all valid_call (vec[offset := baseCall])"
    using BaseCall_of_valid [OF _ b]
    by (auto simp: list_all_iff dest!: set_update_subset_insert [THEN subsetD])
  with assms(2) c show ?thesis by simp
qed

lemma glenn_lines_valid:
  "glenn_lines capacity junk calls lines = Inr calls' \<Longrightarrow> \<forall>n. list_all valid_call (calls n) \<Longrightarrow>
   \<forall>n. list_all valid_call (calls' n)"
proof (induction lines arbitrary: calls)
  case Nil
  then show ?case by simp
next
  case (Cons line lines)
  show ?case
  proof (cases "line = []")
    case True
    with Cons show ?thesis by simp
  next
    case False
    with Cons.prems(1) obtain c1 where g: "glenn_line capacity junk calls line = Inr c1"
      and r: "glenn_lines capacity junk c1 lines = Inr calls'"
      by (auto split: sum.splits)
    from Cons.IH [OF r glenn_line_valid [OF g Cons.prems(2)]] show ?thesis .
  qed
qed

lemma call_table_valid_call:
  assumes "glenn_lines capacity junk no_calls lines = Inr calls" "call_at calls n i = Some call"
  shows "valid_call call"
proof -
  have "\<forall>n. list_all valid_call (calls n)"
    by (rule glenn_lines_valid [OF assms(1)]) (simp add: no_calls_def)
  with assms(2) show ?thesis
    by (auto simp: call_at_def list_all_length split: if_splits)
qed

lemma call_table_valid:
  "glenn_lines capacity junk no_calls lines = Inr calls \<Longrightarrow> call_at calls n i = Some call \<Longrightarrow>
   numberOfAlts call \<le> MAX_ALTS"
  using call_table_valid_call [of capacity junk lines calls n i call] by (simp add: valid_call_def)

section \<open>Properties of the pass over the reference nodes\<close>

lemma get_node_id: "get_node vg n = Some nd \<Longrightarrow> node_id nd = n"
  by (auto simp: get_node_def find_Some_iff)

lemma first_placement_within:
  "first_placement vg c path i = Some (ci, r) \<Longrightarrow> path_in_graph vg path \<Longrightarrow>
   get_node vg i = Some nd \<Longrightarrow> ci + length (sequence nd) \<le> c + length (path_sequence vg path)"
proof (induction path arbitrary: c)
  case Nil
  then show ?case by simp
next
  case (Cons m path)
  from Cons.prems(2) obtain n where n: "get_node vg (position_node_id m) = Some n"
    and ig: "path_in_graph vg path"
    by (auto simp: path_in_graph_def)
  have "map snd (path_steps vg (length (sequence n)) path) = map snd (path_steps vg 0 path)"
    by (rule path_steps_shift)
  then have "map (\<lambda>(c, n). sequence n) (path_steps vg (length (sequence n)) path)
     = map (\<lambda>(c, n). sequence n) (path_steps vg 0 path)"
    by (metis (no_types, lifting) case_prod_unfold map_map o_def map_eq_conv)
  then have ps: "path_sequence vg (m # path) = sequence n @ path_sequence vg path"
    using n by (simp add: path_sequence_def)
  show ?case
  proof (cases "position_node_id m = i")
    case True
    with Cons.prems n ps show ?thesis by simp
  next
    case False
    with Cons.prems(1) n
    have "first_placement vg (c + length (sequence n)) path i = Some (ci, r)" by simp
    from Cons.IH [OF this ig Cons.prems(3)] ps show ?thesis by simp
  qed
qed

lemma trace_reference_within:
  assumes "trace_reference vg refPathName = Inr st"
    and "referencePositionAndOrientation st n = Some placement"
    and "get_node vg n = Some nd"
  shows "fst placement + length (sequence nd) \<le> length (refSeq st)"
proof -
  from assms(1) obtain path where tl: "trace_loop vg trace_init path = Inr st"
    by (auto simp: trace_reference_def split: option.splits)
  from trace_loop_placement [OF tl] assms(2)
  have "first_placement vg 0 path n = Some (fst placement, snd placement)"
    by (simp add: trace_init_def)
  from first_placement_within [OF this trace_loop_in_graph [OF tl] assms(3)]
    trace_loop_refSeq [OF tl]
  show ?thesis by (simp add: trace_init_def)
qed

lemma site_position_within:
  "i < len \<Longrightarrow> site_position placement len i < fst placement + len"
  by (auto simp: site_position_def)

lemma snp_variant_site:
  assumes "referencePositionAndOrientation st (node_id nd) = Some placement"
    and "fst placement + length (sequence nd) \<le> length (refSeq st)"
    and "i < length (sequence nd)"
    and "alts call \<noteq> []" "numberOfAlts call \<le> MAX_ALTS"
  shows "snp_variant vg st nd i call =
         Inr (site_variant vg (refSeq st) placement (length (sequence nd)) i call)"
proof -
  have "site_position placement (length (sequence nd)) i < length (refSeq st)"
    using site_position_within [OF assms(3), of placement] assms(2) by simp
  then have sa: "string_at (refSeq st) (site_position placement (length (sequence nd)) i) =
    Some (refSeq st ! site_position placement (length (sequence nd)) i)"
    by (simp add: string_at_def)
  from assms(4,5) have "length (alts call) = 1 \<or> length (alts call) = 2"
    by (cases "alts call") (auto simp: numberOfAlts_def MAX_ALTS_def le_Suc_eq)
  then show ?thesis
    using assms(1) sa
    by (auto simp: snp_variant_def site_variant_def Let_def numberOfAlts_def
        site_position_def [symmetric])
qed

lemma snp_loop_append:
  "snp_loop vg st calls nd (xs @ ys) out =
     (case snp_loop vg st calls nd xs out of
        (out', None) \<Rightarrow> snp_loop vg st calls nd ys out'
      | (out', Some e) \<Rightarrow> (out', Some e))"
  by (induction xs arbitrary: out) (auto split: option.splits sum.splits prod.splits)

lemma snp_loop_sites:
  assumes "referencePositionAndOrientation st (node_id nd) = Some placement"
    and "fst placement + length (sequence nd) \<le> length (refSeq st)"
    and "\<forall>call i. call_at calls (node_id nd) i = Some call \<longrightarrow> numberOfAlts call \<le> MAX_ALTS"
    and "\<forall>i \<in> set offsets. i < length (sequence nd) \<and> i < length (calls (node_id nd))"
  shows "snp_loop vg st calls nd offsets out =
         (out @ map (\<lambda>i. site_variant vg (refSeq st) placement (length (sequence nd)) i
                          (calls (node_id nd) ! i))
                  (alt_sites calls (node_id nd) offsets), None)"
  using assms(4)
proof (induction offsets arbitrary: out)
  case Nil
  then show ?case by (simp add: alt_sites_def)
next
  case (Cons i offsets)
  from Cons.prems have i: "i < length (sequence nd)" "i < length (calls (node_id nd))"
    and r: "\<forall>i \<in> set offsets. i < length (sequence nd) \<and> i < length (calls (node_id nd))"
    by simp_all
  let ?call = "calls (node_id nd) ! i"
  have ca: "call_at calls (node_id nd) i = Some ?call" using i by (simp add: call_at_def)
  show ?case
  proof (cases "alts ?call = []")
    case True
    with ca Cons.IH [OF r] show ?thesis
      by (simp add: numberOfAlts_def alt_sites_def)
  next
    case False
    from assms(3) ca have "numberOfAlts ?call \<le> MAX_ALTS" by blast
    from snp_variant_site [OF assms(1,2) i(1) False this]
    show ?thesis using ca False Cons.IH [OF r]
      by (simp add: numberOfAlts_def alt_sites_def)
  qed
qed

lemma snp_node_output:
  assumes tr: "trace_reference vg refPathName = Inr st"
    and gl: "glenn_lines capacity junk no_calls lines = Inr calls"
    and nd: "get_node vg n = Some nd"
    and pl: "referencePositionAndOrientation st n = Some placement"
  shows "snp_node vg st calls n =
    (map (\<lambda>i. site_variant vg (refSeq st) placement (length (sequence nd)) i (calls n ! i))
       (alt_sites calls n [0 ..< min (length (sequence nd)) (length (calls n))]),
     if length (sequence nd) \<le> length (calls n) then None else Some CallIndexOutOfRange)"
proof -
  let ?len = "length (sequence nd)"
  let ?L = "min ?len (length (calls n))"
  have id: "node_id nd = n" using nd by (rule get_node_id)
  have w: "fst placement + ?len \<le> length (refSeq st)"
    using tr pl nd by (rule trace_reference_within)
  have v: "\<forall>call i. call_at calls (node_id nd) i = Some call \<longrightarrow> numberOfAlts call \<le> MAX_ALTS"
    using call_table_valid [OF gl] by blast
  have pl': "referencePositionAndOrientation st (node_id nd) = Some placement"
    using pl id by simp
  have first: "snp_loop vg st calls nd [0 ..< ?L] [] =
      (map (\<lambda>i. site_variant vg (refSeq st) placement ?len i (calls n ! i))
         (alt_sites calls n [0 ..< ?L]), None)"
    using snp_loop_sites [OF pl' w v, of "[0 ..< ?L]" vg "[]"] id by simp
  have split: "[0 ..< ?len] = [0 ..< ?L] @ [?L ..< ?len]"
    by (metis le_add_diff_inverse min.cobounded1 upt_add_eq_append zero_le)
  have rest: "snp_loop vg st calls nd [?L ..< ?len] out =
      (out, if ?len \<le> length (calls n) then None else Some CallIndexOutOfRange)" for out
  proof (cases "?len \<le> length (calls n)")
    case True
    then show ?thesis by (simp add: min_def)
  next
    case False
    then have "[?L ..< ?len] = length (calls n) # [Suc (length (calls n)) ..< ?len]"
      by (simp add: min_def upt_conv_Cons)
    with False show ?thesis by (simp add: call_at_def id)
  qed
  have "snp_node vg st calls n = snp_loop vg st calls nd [0 ..< ?len] []"
    using pl nd by (simp add: snp_node_def)
  also have "\<dots> = snp_loop vg st calls nd ([0 ..< ?L] @ [?L ..< ?len]) []"
    using split by simp
  also have "\<dots> = (map (\<lambda>i. site_variant vg (refSeq st) placement ?len i (calls n ! i))
       (alt_sites calls n [0 ..< ?L]),
     if ?len \<le> length (calls n) then None else Some CallIndexOutOfRange)"
    by (simp only: snp_loop_append first rest prod.case option.case)
  finally show ?thesis .
qed

text \<open>
  Claim C4. Let the tables come from tracing the reference path and from parsing a call
  file. For every reference node, placed at \<open>coordinate\<close> with the orientation
  \<open>reverse\<close>, and every offset \<open>i\<close> of the node whose call has at least one alt, the
  body of the loop writes the variant whose position is the absolute coordinate plus 1,
  the absolute coordinate being \<open>coordinate + (length - i - 1)\<close> when the node is reverse
  in the reference and \<open>coordinate + i\<close> otherwise; its reference allele is the one base of
  the reference sequence at that coordinate, which lies inside the sequence; and each alt
  base is reverse-complemented exactly when the node is reverse in the reference.
\<close>

theorem snp_node_emits_site:
  assumes "trace_reference vg refPathName = Inr st"
    and "glenn_lines capacity junk no_calls lines = Inr calls"
    and "get_node vg n = Some nd"
    and "referencePositionAndOrientation st n = Some (coordinate, reverse)"
    and "i < length (sequence nd)"
    and "call_at calls n i = Some call"
    and "alts call \<noteq> []"
  shows "let referencePosition =
               (if reverse then coordinate + (length (sequence nd) - i - 1) else coordinate + i)
         in referencePosition < length (refSeq st) \<and>
            \<lparr>position = referencePosition + 1,
             ref = [refSeq st ! referencePosition],
             alt = map (\<lambda>a. if reverse then reverse_complement vg [a] else [a]) (alts call),
             genotype = (if graphBasePresent call then ''1/0''
                         else if length (alts call) = 1 then ''1/1'' else ''1/2''),
             quality = 0\<rparr>
            \<in> set (fst (snp_node vg st calls n))"
proof -
  let ?len = "length (sequence nd)"
  from assms(6) have il: "i < length (calls n)" and c: "call = calls n ! i"
    by (auto simp: call_at_def split: if_splits)
  have "i \<in> set (alt_sites calls n [0 ..< min ?len (length (calls n))])"
    using assms(5,6,7) il by (simp add: alt_sites_def)
  then have mem: "site_variant vg (refSeq st) (coordinate, reverse) ?len i (calls n ! i)
      \<in> set (fst (snp_node vg st calls n))"
    by (simp add: snp_node_output [OF assms(1-4)])
  have lt: "site_position (coordinate, reverse) ?len i < length (refSeq st)"
    using site_position_within [OF assms(5), of "(coordinate, reverse)"]
      trace_reference_within [OF assms(1,4,3)] by simp
  from lt mem show ?thesis
    unfolding Let_def site_variant_def site_position_def fst_conv snd_conv c
    by (rule conjI)
qed

lemmas snp_defs = snp_node_def snp_variant_def call_at_def string_at_def numberOfAlts_def

lemma example_snp_node_1:
  "snp_node example_graph example_trace example_calls 1 =
     ([\<lparr>position = 4, ref = ''C'', alt = [''T''], genotype = ''1/0'', quality = 0\<rparr>], None)"
  by (simp add: snp_defs example_graph_def example_trace_def example_calls_def get_node_def
      BaseCall_default_def upt_rec [of 0] upt_rec [of "Suc _"] eval_nat_numeral)

text \<open>
  On the example, offset 3 of node 1 is present with the alt T, where the reference has a
  C: the variant is at position 4, with the reference allele C, the alt T and the genotype
  1/0.
\<close>

theorem snp_node_emits_site_witness:
  "trace_reference example_graph ''ref'' = Inr example_trace \<and>
   glenn_lines 5 (0, 0) no_calls example_lines = Inr example_calls \<and>
   get_node example_graph 1 = Some \<lparr>node_id = 1, sequence = ''ACGCA''\<rparr> \<and>
   referencePositionAndOrientation example_trace 1 = Some (0, False) \<and>
   call_at example_calls 1 3 = Some \<lparr>graphBasePresent = True, alts = ''T''\<rparr> \<and>
   refSeq example_trace ! 3 = CHR ''C'' \<and>
   \<lparr>position = 4, ref = ''C'', alt = [''T''], genotype = ''1/0'', quality = 0\<rparr>
     \<in> set (fst (snp_node example_graph example_trace example_calls 1))"
proof -
  have g: "get_node example_graph 1 = Some \<lparr>node_id = 1, sequence = ''ACGCA''\<rparr>"
    by (simp add: example_graph_def get_node_def)
  have p: "referencePositionAndOrientation example_trace 1 = Some (0, False)"
    by (simp add: example_trace_def)
  have i: "3 < length (sequence \<lparr>node_id = 1, sequence = ''ACGCA''\<rparr>)" by simp
  have c: "call_at example_calls 1 3 = Some \<lparr>graphBasePresent = True, alts = ''T''\<rparr>"
    by (simp add: call_at_def example_calls_def)
  have a: "alts \<lparr>graphBasePresent = True, alts = ''T''\<rparr> \<noteq> []" by simp
  have r: "refSeq example_trace ! 3 = CHR ''C''" by (simp add: example_trace_def)
  show ?thesis
    using snp_node_emits_site [OF example_trace_reference example_glenn_lines_5 g p i c a] g p c r
    by (simp add: example_trace_reference example_glenn_lines_5 Let_def)
qed

text \<open>
  Claim C5, as amended. Let the tables come from tracing the reference path and from
  parsing a call file. For every base of a reference node whose call records two alt bases
  with \<open>graphBasePresent\<close> false, the body of the loop writes a variant with the genotype
  1/2 whose two alt alleles are the two alt bases, each reverse-complemented when the
  node is reverse in the reference, in ascending order of the bases: the order in which
  the set of call tokens is iterated, whatever their order in the call string.
\<close>

theorem snp_node_two_alts:
  assumes "trace_reference vg refPathName = Inr st"
    and "glenn_lines capacity junk no_calls lines = Inr calls"
    and "get_node vg n = Some nd"
    and "referencePositionAndOrientation st n = Some (coordinate, reverse)"
    and "i < length (sequence nd)"
    and "call_at calls n i = Some call"
    and "\<not> graphBasePresent call"
    and "numberOfAlts call = 2"
  shows "\<exists>a b. alts call = [a, b] \<and> a < b \<and>
           \<lparr>position = (if reverse then coordinate + (length (sequence nd) - i - 1)
                         else coordinate + i) + 1,
            ref = [refSeq st ! (if reverse then coordinate + (length (sequence nd) - i - 1)
                                else coordinate + i)],
            alt = [if reverse then reverse_complement vg [a] else [a],
                   if reverse then reverse_complement vg [b] else [b]],
            genotype = ''1/2'', quality = 0\<rparr>
           \<in> set (fst (snp_node vg st calls n))"
proof -
  let ?len = "length (sequence nd)"
  from assms(8) obtain a b where ab: "alts call = [a, b]"
    by (cases "alts call"; cases "tl (alts call)") (auto simp: numberOfAlts_def)
  from call_table_valid_call [OF assms(2,6)] ab have lt: "a < b"
    by (simp add: valid_call_def)
  from assms(6) have il: "i < length (calls n)" and c: "call = calls n ! i"
    by (auto simp: call_at_def split: if_splits)
  have "i \<in> set (alt_sites calls n [0 ..< min ?len (length (calls n))])"
    using assms(5,6) il ab by (simp add: alt_sites_def)
  then have mem: "site_variant vg (refSeq st) (coordinate, reverse) ?len i call
      \<in> set (fst (snp_node vg st calls n))"
    by (simp add: snp_node_output [OF assms(1-4)] c)
  have g: "(if graphBasePresent call then ''1/0''
            else if length (alts call) = 1 then ''1/1'' else ''1/2'') = ''1/2''"
    using assms(7) ab by simp
  have m: "map (\<lambda>a. if reverse then reverse_complement vg [a] else [a]) (alts call) =
           [if reverse then reverse_complement vg [a] else [a],
            if reverse then reverse_complement vg [b] else [b]]"
    using ab by simp
  from mem have "\<lparr>position = (if reverse then coordinate + (length (sequence nd) - i - 1)
                         else coordinate + i) + 1,
            ref = [refSeq st ! (if reverse then coordinate + (length (sequence nd) - i - 1)
                                else coordinate + i)],
            alt = [if reverse then reverse_complement vg [a] else [a],
                   if reverse then reverse_complement vg [b] else [b]],
            genotype = ''1/2'', quality = 0\<rparr>
           \<in> set (fst (snp_node vg st calls n))"
    unfolding site_variant_def site_position_def fst_conv snd_conv g m .
  with ab lt show ?thesis by blast
qed

lemma example_snp_node_3:
  "snp_node example_graph example_trace example_calls 3 =
     ([\<lparr>position = 8, ref = ''T'', alt = [''A'', ''C''], genotype = ''1/2'', quality = 0\<rparr>], None)"
  by (simp add: snp_defs example_graph_def example_trace_def example_calls_def get_node_def
      BaseCall_default_def upt_rec [of 0] upt_rec [of "Suc _"] eval_nat_numeral)

text \<open>On the example, offset 1 of node 3 has the alts A and C and is not present.\<close>

theorem snp_node_two_alts_witness:
  "trace_reference example_graph ''ref'' = Inr example_trace \<and>
   glenn_lines 5 (0, 0) no_calls example_lines = Inr example_calls \<and>
   get_node example_graph 3 = Some \<lparr>node_id = 3, sequence = ''GT''\<rparr> \<and>
   referencePositionAndOrientation example_trace 3 = Some (6, False) \<and>
   call_at example_calls 3 1 = Some \<lparr>graphBasePresent = False, alts = ''AC''\<rparr> \<and>
   CHR ''A'' < CHR ''C'' \<and>
   \<lparr>position = 8, ref = [refSeq example_trace ! 7], alt = [''A'', ''C''], genotype = ''1/2'',
    quality = 0\<rparr> \<in> set (fst (snp_node example_graph example_trace example_calls 3))"
proof -
  have g: "get_node example_graph 3 = Some \<lparr>node_id = 3, sequence = ''GT''\<rparr>"
    by (simp add: example_graph_def get_node_def)
  have p: "referencePositionAndOrientation example_trace 3 = Some (6, False)"
    by (simp add: example_trace_def)
  have i: "1 < length (sequence \<lparr>node_id = 3, sequence = ''GT''\<rparr>)" by simp
  have c: "call_at example_calls 3 1 = Some \<lparr>graphBasePresent = False, alts = ''AC''\<rparr>"
    by (simp add: call_at_def example_calls_def)
  have a: "\<not> graphBasePresent \<lparr>graphBasePresent = False, alts = ''AC''\<rparr>"
    "numberOfAlts \<lparr>graphBasePresent = False, alts = ''AC''\<rparr> = 2"
    by (simp_all add: numberOfAlts_def)
  show ?thesis
    using snp_node_two_alts [OF example_trace_reference example_glenn_lines_5 g p i c a] g p c
    by (simp add: example_trace_reference example_glenn_lines_5 less_char_def)
qed

text \<open>
  Claim C5 as stated fails on the example: the call string of the fourth line of the call
  file is \<open>C,A\<close>, parsed as C and then A, and the variant of that base has the alt
  alleles A and C, in this order.
\<close>

theorem call_order_not_kept:
  "example_lines ! 3 = ''3 2 T C,A'' \<and>
   split_call ''C,A'' = [''C'', ''A''] \<and>
   glenn_lines 5 (0, 0) no_calls example_lines = Inr example_calls \<and>
   trace_reference example_graph ''ref'' = Inr example_trace \<and>
   snp_node example_graph example_trace example_calls 3 =
     ([\<lparr>position = 8, ref = ''T'', alt = [''A'', ''C''], genotype = ''1/2'', quality = 0\<rparr>], None)"
proof -
  have "example_lines ! 3 = ''3 2 T C,A''" by (simp add: example_lines_def)
  moreover have "split_call ''C,A'' = [''C'', ''A'']" by (simp add: split_call_def)
  ultimately show ?thesis
    by (simp add: example_glenn_lines_5 example_trace_reference example_snp_node_3)
qed

section \<open>Properties of the pass over the non-reference nodes\<close>

subsection \<open>The worked example, node by node\<close>

lemma forward_traversal_simps:
  "node (forward_traversal n) = n" "backward (forward_traversal n) = False"
  "node ((forward_traversal n)\<lparr>backward := True\<rparr>) = n"
  "backward ((forward_traversal n)\<lparr>backward := True\<rparr>) = True"
  by (simp_all add: forward_traversal_def)

lemma Suc5: "Suc (Suc (Suc (Suc (Suc 0)))) = 5"
  by simp

lemma leftmost_single:
  "rpo (node c) = Some p \<Longrightarrow> fst p < SIZE_MAX \<Longrightarrow> leftmost rpo [c] = Some c"
  by (simp add: leftmost_def)

lemma small_SIZE_MAX: "(0::nat) < SIZE_MAX" "(5::nat) < SIZE_MAX" "(6::nat) < SIZE_MAX"
  by (simp_all add: SIZE_MAX_def)

lemma example_get_node:
  "get_node example_graph 1 = Some \<lparr>node_id = 1, sequence = ''ACGCA''\<rparr>"
  "get_node example_graph 2 = Some \<lparr>node_id = 2, sequence = ''C''\<rparr>"
  "get_node example_graph 3 = Some \<lparr>node_id = 3, sequence = ''GT''\<rparr>"
  "get_node example_graph 4 = Some \<lparr>node_id = 4, sequence = ''GG''\<rparr>"
  "get_node example_graph 5 = Some \<lparr>node_id = 5, sequence = ''TT''\<rparr>"
  "get_node example_graph 6 = Some \<lparr>node_id = 6, sequence = ''A''\<rparr>"
  "get_node example_graph 7 = Some \<lparr>node_id = 7, sequence = ''A''\<rparr>"
  by (simp_all add: example_graph_def get_node_def)

lemma example_placement:
  "referencePositionAndOrientation example_trace 1 = Some (0, False)"
  "referencePositionAndOrientation example_trace 2 = Some (5, False)"
  "referencePositionAndOrientation example_trace 3 = Some (6, False)"
  "referencePositionAndOrientation example_trace 4 = None"
  "referencePositionAndOrientation example_trace 5 = None"
  "referencePositionAndOrientation example_trace 6 = None"
  "referencePositionAndOrientation example_trace 7 = None"
  by (simp_all add: example_trace_def)

lemma lower_bound_hit: "m k = Some v \<Longrightarrow> lower_bound m k = Some v"
  by (cases k) simp_all

lemma example_index:
  "lower_bound (nodesByReference example_trace) 5 = Some (forward_traversal 2)"
  by (rule lower_bound_hit) (simp add: example_trace_def)

lemma example_ref_path_loop:
  "ref_path_loop example_graph example_trace example_calls 6 5 False = Some (Inr False)"
  apply (subst ref_path_loop.simps)
  apply (simp add: example_index example_get_node forward_traversal_simps example_calls_def
      call_at_def BaseCall_default_def numberOfAlts_def)
  apply (subst ref_path_loop.simps)
  apply simp
  done

lemmas bubble_defs = bubble_node_def anchored_node_def oriented_node_def placed_node_def
  structural_variant_def presence_def string_at_def numberOfAlts_def forward_traversal_simps

lemma example_bubble_4:
  "bubble_node example_graph example_trace example_calls 4 =
     Some (Inr ([], [\<lparr>position = 6, ref = ''C'', alt = [''GG''], genotype = ''1/1'', quality = 0\<rparr>]))"
proof -
  have l: "leftmost (referencePositionAndOrientation example_trace)
             (nodes_prev example_graph (forward_traversal 4)) = Some (forward_traversal 1)"
    "leftmost (referencePositionAndOrientation example_trace)
             (nodes_next example_graph (forward_traversal 4)) = Some (forward_traversal 3)"
    by (simp_all add: example_graph_def forward_traversal_simps leftmost_single example_placement
        small_SIZE_MAX)
  have c: "example_calls 4 = [\<lparr>graphBasePresent = True, alts = []\<rparr>, \<lparr>graphBasePresent = True, alts = []\<rparr>]"
    by (simp add: example_calls_def)
  have r: "refSeq example_trace = ''ACGCACGT''" by (simp add: example_trace_def)
  have g: "reverse_complement example_graph = dna_reverse_complement" by (simp add: example_graph_def)
  show ?thesis
    by (simp add: bubble_defs l example_placement example_get_node example_ref_path_loop c r g
        Suc5 dna_reverse_complement_def complement_base_def)
qed

lemma example_ref_path_loop_empty:
  "ref_path_loop example_graph example_trace calls 5 5 False = Some (Inr False)"
  by (subst ref_path_loop.simps) simp

lemma example_bubble_5:
  "bubble_node example_graph example_trace example_calls 5 =
     Some (Inr ([], [\<lparr>position = 5, ref = ''A'', alt = [''ATT''], genotype = ''1/1'', quality = 0\<rparr>]))"
proof -
  have l: "leftmost (referencePositionAndOrientation example_trace)
             (nodes_prev example_graph (forward_traversal 5)) = Some (forward_traversal 1)"
    "leftmost (referencePositionAndOrientation example_trace)
             (nodes_next example_graph (forward_traversal 5)) = Some (forward_traversal 2)"
    by (simp_all add: example_graph_def forward_traversal_simps leftmost_single example_placement
        small_SIZE_MAX)
  have c: "example_calls 5 = [\<lparr>graphBasePresent = True, alts = []\<rparr>, \<lparr>graphBasePresent = True, alts = []\<rparr>]"
    by (simp add: example_calls_def)
  have r: "refSeq example_trace = ''ACGCACGT''" by (simp add: example_trace_def)
  show ?thesis
    by (simp add: bubble_defs l example_placement example_get_node example_ref_path_loop_empty c r
        Suc5)
qed

lemma example_bubble_6:
  "bubble_node example_graph example_trace calls 6 = Some (Inr ([AllowsDuplication 6], []))"
proof -
  have l: "leftmost (referencePositionAndOrientation example_trace)
             (nodes_prev example_graph (forward_traversal 6)) = Some (forward_traversal 3)"
    "leftmost (referencePositionAndOrientation example_trace)
             (nodes_next example_graph (forward_traversal 6)) = Some (forward_traversal 1)"
    by (simp_all add: example_graph_def forward_traversal_simps leftmost_single example_placement
        small_SIZE_MAX)
  show ?thesis
    by (simp add: bubble_defs l example_placement)
qed

lemma example_bubble_7:
  "bubble_node example_graph example_trace calls 7 = Some (Inr ([InvertsReferencePath 7], []))"
proof -
  have l: "leftmost (referencePositionAndOrientation example_trace)
             (nodes_prev example_graph (forward_traversal 7)) = Some (forward_traversal 1)"
    "leftmost (referencePositionAndOrientation example_trace)
             (nodes_next example_graph (forward_traversal 7)) = Some \<lparr>node = 3, backward = True\<rparr>"
    by (simp_all add: example_graph_def forward_traversal_simps leftmost_single example_placement
        small_SIZE_MAX)
  show ?thesis
    by (simp add: bubble_defs l example_placement)
qed

subsection \<open>Rejected nodes\<close>

text \<open>
  Claim C2. Take a non-reference node with both anchors found. If reading in and reading
  out disagree in reference direction, or the two anchors have equal reference
  coordinates, or, after the swap that normalises the orientation, the out-anchor's
  coordinate is smaller than the in-anchor's, then the body writes no variant and logs one
  line that names the node: that it inverts the reference path in the first case, that it
  allows duplication in the other two.
\<close>

theorem bubble_node_rejects:
  assumes "referencePositionAndOrientation st n = None"
    and "leftmost (referencePositionAndOrientation st) (nodes_prev vg (forward_traversal n)) =
           Some foundIn"
    and "leftmost (referencePositionAndOrientation st) (nodes_next vg (forward_traversal n)) =
           Some foundOut"
    and "referencePositionAndOrientation st (node foundIn) = Some inPlacement"
    and "referencePositionAndOrientation st (node foundOut) = Some outPlacement"
    and "readInForward = (backward foundIn = snd inPlacement)"
    and "readOutForward = (backward foundOut = snd outPlacement)"
    and "readInForward \<noteq> readOutForward \<or>
         fst inPlacement = fst outPlacement \<or>
         (if readInForward then fst outPlacement < fst inPlacement
          else fst inPlacement < fst outPlacement)"
  shows "bubble_node vg st calls n =
         Some (Inr ([if readInForward \<noteq> readOutForward then InvertsReferencePath n
                     else AllowsDuplication n], []))"
  using assms
  by (auto simp: bubble_node_def anchored_node_def oriented_node_def Let_def
      forward_traversal_simps)

text \<open>
  On the example, node 6 leads from node 3 (coordinate 6) back to node 1 (coordinate 0), and
  node 7 leaves node 1 forward and enters node 3 backward.
\<close>

theorem bubble_node_rejects_witness:
  "bubble_node example_graph example_trace example_calls 6 =
     Some (Inr ([AllowsDuplication 6], [])) \<and>
   bubble_node example_graph example_trace example_calls 7 =
     Some (Inr ([InvertsReferencePath 7], []))"
proof -
  have l6: "leftmost (referencePositionAndOrientation example_trace)
             (nodes_prev example_graph (forward_traversal 6)) = Some (forward_traversal 3)"
    "leftmost (referencePositionAndOrientation example_trace)
             (nodes_next example_graph (forward_traversal 6)) = Some (forward_traversal 1)"
    by (simp_all add: example_graph_def forward_traversal_simps leftmost_single example_placement
        small_SIZE_MAX)
  have l7: "leftmost (referencePositionAndOrientation example_trace)
             (nodes_prev example_graph (forward_traversal 7)) = Some (forward_traversal 1)"
    "leftmost (referencePositionAndOrientation example_trace)
             (nodes_next example_graph (forward_traversal 7)) = Some \<lparr>node = 3, backward = True\<rparr>"
    by (simp_all add: example_graph_def forward_traversal_simps leftmost_single example_placement
        small_SIZE_MAX)
  have p: "referencePositionAndOrientation example_trace (node (forward_traversal 3)) = Some (6, False)"
    "referencePositionAndOrientation example_trace (node (forward_traversal 1)) = Some (0, False)"
    "referencePositionAndOrientation example_trace (node \<lparr>node = 3, backward = True\<rparr>) = Some (6, False)"
    by (simp_all add: forward_traversal_simps example_placement)
  have a: "bubble_node example_graph example_trace example_calls 6 =
     Some (Inr ([AllowsDuplication 6], []))"
    using bubble_node_rejects [OF example_placement(6) l6 p(1) p(2) refl refl, of example_calls]
    by (simp add: forward_traversal_simps)
  have b: "bubble_node example_graph example_trace example_calls 7 =
     Some (Inr ([InvertsReferencePath 7], []))"
    using bubble_node_rejects [OF example_placement(7) l7 p(2) p(3) refl refl, of example_calls]
    by (simp add: forward_traversal_simps)
  from a b show ?thesis by simp
qed

subsection \<open>Insertions\<close>

lemma ref_path_loop_done:
  "ref_path_loop vg st calls pastEnd pastEnd refPathExists = Some (Inr refPathExists)"
  by (subst ref_path_loop.simps) simp

text \<open>
  Claim C3. Take a node that is present throughout and is placed on an empty reference
  interval, starting and ending at \<open>referenceIntervalStart\<close> inside the reference
  sequence (a pure insertion). If the start is coordinate 0 the run ends with a fatal
  error. Otherwise the start is decremented by one, the reference base at the new start is
  the reference allele and is put in front of the alt allele (the node's sequence, reverse
  complemented when the node is traversed backward), and the position is the new start
  plus one. The genotype is 1/1.
\<close>

theorem insertion_left_shift:
  assumes "presence (calls (node altNode)) = (True, True, maxAltsPresent)"
    and "get_node vg (node altNode) = Some nd"
    and "referenceIntervalStart \<le> length (refSeq st)"
  shows "placed_node vg st calls altNode referenceIntervalStart referenceIntervalStart =
     (if referenceIntervalStart = 0 then Some (Inl InsertionAtZero)
      else Some (Inr (if maxAltsPresent > 0 then [NovelAlts (node altNode)] else [],
            [\<lparr>position = (referenceIntervalStart - 1) + 1,
              ref = [refSeq st ! (referenceIntervalStart - 1)],
              alt = [refSeq st ! (referenceIntervalStart - 1) #
                     (if backward altNode then reverse_complement vg (sequence nd)
                      else sequence nd)],
              genotype = ''1/1'', quality = 0\<rparr>])))"
proof (cases "referenceIntervalStart = 0")
  case True
  with assms show ?thesis
    by (simp add: placed_node_def ref_path_loop_done structural_variant_def Let_def)
next
  case False
  with assms(3) have "referenceIntervalStart - 1 < length (refSeq st)" by simp
  then have "string_at (refSeq st) (referenceIntervalStart - 1) =
      Some (refSeq st ! (referenceIntervalStart - 1))"
    by (simp add: string_at_def)
  with False assms show ?thesis
    by (simp add: placed_node_def ref_path_loop_done structural_variant_def Let_def)
qed

text \<open>
  On the example, node 5 (TT) is inserted at coordinate 5, and the reference base at
  coordinate 4 is A: the variant is at position 5, with the reference allele A and the alt
  allele ATT.
\<close>

theorem insertion_left_shift_witness:
  "presence (example_calls (node (forward_traversal 5))) = (True, True, 0) \<and>
   get_node example_graph (node (forward_traversal 5)) = Some \<lparr>node_id = 5, sequence = ''TT''\<rparr> \<and>
   refSeq example_trace ! 4 = CHR ''A'' \<and>
   placed_node example_graph example_trace example_calls (forward_traversal 5) 5 5 =
     Some (Inr ([], [\<lparr>position = 5, ref = ''A'', alt = [''ATT''], genotype = ''1/1'',
                     quality = 0\<rparr>])) \<and>
   bubble_node example_graph example_trace example_calls 5 =
     Some (Inr ([], [\<lparr>position = 5, ref = ''A'', alt = [''ATT''], genotype = ''1/1'',
                     quality = 0\<rparr>]))"
proof -
  have p: "presence (example_calls (node (forward_traversal 5))) = (True, True, 0)"
    by (simp add: presence_def example_calls_def forward_traversal_simps numberOfAlts_def)
  have g: "get_node example_graph (node (forward_traversal 5)) = Some \<lparr>node_id = 5, sequence = ''TT''\<rparr>"
    by (simp add: forward_traversal_simps example_get_node)
  have l: "5 \<le> length (refSeq example_trace)" by (simp add: example_trace_def)
  have r: "refSeq example_trace ! 4 = CHR ''A''" by (simp add: example_trace_def)
  show ?thesis
    using insertion_left_shift [of example_calls "forward_traversal 5" 0 example_graph
        "\<lparr>node_id = 5, sequence = ''TT''\<rparr>" 5 example_trace, OF p g l] p g r
    by (simp add: example_bubble_5 forward_traversal_simps)
qed

section \<open>The call lookups\<close>

lemma ref_node_loop_append:
  "ref_node_loop calls n (xs @ ys) b =
     (case ref_node_loop calls n xs b of
        Inl e \<Rightarrow> Inl e
      | Inr b' \<Rightarrow> ref_node_loop calls n ys b')"
  by (induction xs arbitrary: b) (auto split: option.splits sum.splits)

lemma ref_node_loop_in_bounds:
  "\<forall>i \<in> set offsets. i < length (calls (node_id nd)) \<Longrightarrow>
   ref_node_loop calls (node_id nd) offsets b =
     Inr (b \<or> list_ex (base_observed calls nd) offsets)"
proof (induction offsets arbitrary: b)
  case Nil
  then show ?case by simp
next
  case (Cons i offsets)
  then show ?case
    by (auto simp: call_at_def base_observed_def numberOfAlts_def)
qed

lemma ref_node_loop_result:
  "ref_node_loop calls (node_id nd) [0 ..< len] b =
     (if len \<le> length (calls (node_id nd))
      then Inr (b \<or> list_ex (base_observed calls nd) [0 ..< len])
      else Inl CallIndexOutOfRange)"
proof (cases "len \<le> length (calls (node_id nd))")
  case True
  then show ?thesis by (simp add: ref_node_loop_in_bounds)
next
  case False
  let ?L = "length (calls (node_id nd))"
  from False have "[0 ..< len] = [0 ..< ?L] @ ?L # [Suc ?L ..< len]"
    by (metis le_add_diff_inverse less_imp_le_nat not_le upt_add_eq_append upt_conv_Cons zero_le)
  then show ?thesis
    using False by (simp add: ref_node_loop_append ref_node_loop_in_bounds call_at_def)
qed








section \<open>The zygosity scan and the emitted structural variant\<close>

subsection \<open>Where two placed nodes lie on the path\<close>

lemma steps_length_Cons:
  "steps_length ((c, n) # xs) = length (sequence n) + steps_length xs"
  by (simp add: steps_length_def)

lemma steps_length_shift:
  "steps_length (path_steps vg c path) = steps_length (path_steps vg c' path)"
proof (induction path arbitrary: c c')
  case Nil
  then show ?case by simp
next
  case (Cons m path)
  show ?case
  proof (cases "get_node vg (position_node_id m)")
    case None
    then show ?thesis by simp
  next
    case (Some n)
    with Cons.IH [of "c + length (sequence n)" "c' + length (sequence n)"] show ?thesis
      by (simp add: steps_length_Cons)
  qed
qed

lemma path_steps_append:
  "path_in_graph vg xs \<Longrightarrow>
   path_steps vg c (xs @ ys) =
     path_steps vg c xs @ path_steps vg (c + steps_length (path_steps vg c xs)) ys"
proof (induction xs arbitrary: c)
  case Nil
  then show ?case by (simp add: steps_length_def)
next
  case (Cons m xs)
  from Cons.prems obtain n where n: "get_node vg (position_node_id m) = Some n"
    and r: "path_in_graph vg xs"
    by (auto simp: path_in_graph_def)
  from Cons.IH [OF r, of "c + length (sequence n)"] n show ?case
    by (simp add: steps_length_Cons add.assoc)
qed

lemma path_steps_bounds:
  "(c', nd) \<in> set (path_steps vg c path) \<Longrightarrow>
   c \<le> c' \<and> c' + length (sequence nd) \<le> c + steps_length (path_steps vg c path)"
proof (induction path arbitrary: c)
  case Nil
  then show ?case by simp
next
  case (Cons m path)
  from Cons.prems obtain n where n: "get_node vg (position_node_id m) = Some n"
    by (cases "get_node vg (position_node_id m)") auto
  from Cons.prems n consider "(c', nd) = (c, n)"
    | "(c', nd) \<in> set (path_steps vg (c + length (sequence n)) path)"
    by auto
  then show ?case
  proof cases
    case 1
    with n show ?thesis by (simp add: steps_length_Cons)
  next
    case 2
    from Cons.IH [OF 2] n show ?thesis by (simp add: steps_length_Cons)
  qed
qed

lemma path_in_graph_append:
  "path_in_graph vg (xs @ ys) \<longleftrightarrow> path_in_graph vg xs \<and> path_in_graph vg ys"
  by (simp add: path_in_graph_def)

lemma first_placement_prefix:
  "first_placement vg c path i = Some (ci, r) \<Longrightarrow>
   \<exists>pre m post. path = pre @ m # post \<and> position_node_id m = i \<and> path_in_graph vg pre \<and>
     ci = c + steps_length (path_steps vg c pre)"
proof (induction path arbitrary: c)
  case Nil
  then show ?case by simp
next
  case (Cons m path)
  show ?case
  proof (cases "position_node_id m = i")
    case True
    with Cons.prems have "ci = c" by simp
    show ?thesis
    proof (intro exI conjI)
      show "m # path = [] @ m # path" by simp
      show "position_node_id m = i" by (rule True)
      show "path_in_graph vg []" by (simp add: path_in_graph_def)
      show "ci = c + steps_length (path_steps vg c [])"
        using \<open>ci = c\<close> by (simp add: steps_length_def)
    qed
  next
    case False
    with Cons.prems obtain n where n: "get_node vg (position_node_id m) = Some n"
      and f: "first_placement vg (c + length (sequence n)) path i = Some (ci, r)"
      by (auto split: option.splits)
    from Cons.IH [OF f] obtain pre m' post where p: "path = pre @ m' # post"
      "position_node_id m' = i" "path_in_graph vg pre"
      "ci = c + length (sequence n) + steps_length (path_steps vg (c + length (sequence n)) pre)"
      by blast
    show ?thesis
    proof (intro exI conjI)
      show "m # path = (m # pre) @ m' # post" using p(1) by simp
      show "position_node_id m' = i" by (rule p(2))
      show "path_in_graph vg (m # pre)" using p(3) n by (simp add: path_in_graph_def)
      show "ci = c + steps_length (path_steps vg c (m # pre))"
        using p(4) n by (simp add: steps_length_Cons)
    qed
  qed
qed

lemma two_placements:
  assumes "first_placement vg c path a = Some (ca, ra)"
    and "first_placement vg c path b = Some (cb, rb)"
    and "ca < cb"
  shows "\<exists>pre m mid post na. path = pre @ m # mid @ post \<and> position_node_id m = a \<and>
     get_node vg a = Some na \<and> path_in_graph vg pre \<and> path_in_graph vg mid \<and>
     ca = c + steps_length (path_steps vg c pre) \<and>
     cb = ca + length (sequence na) +
          steps_length (path_steps vg (ca + length (sequence na)) mid)"
  using assms
proof (induction path arbitrary: c)
  case Nil
  then show ?case by simp
next
  case (Cons m path)
  show ?case
  proof (cases "position_node_id m = a")
    case True
    with Cons.prems have ca: "ca = c" and ne: "position_node_id m \<noteq> b"
      by auto
    from Cons.prems(2) ne obtain n where n: "get_node vg (position_node_id m) = Some n"
      and fb: "first_placement vg (c + length (sequence n)) path b = Some (cb, rb)"
      by (auto split: option.splits)
    from first_placement_prefix [OF fb] obtain mid m' post where p: "path = mid @ m' # post"
      "path_in_graph vg mid"
      "cb = c + length (sequence n) + steps_length (path_steps vg (c + length (sequence n)) mid)"
      by blast
    show ?thesis
    proof (intro exI conjI)
      show "m # path = [] @ m # mid @ (m' # post)" using p(1) by simp
      show "position_node_id m = a" by (rule True)
      show "get_node vg a = Some n" using n True by simp
      show "path_in_graph vg []" by (simp add: path_in_graph_def)
      show "path_in_graph vg mid" by (rule p(2))
      show "ca = c + steps_length (path_steps vg c [])" using ca by (simp add: steps_length_def)
      show "cb = ca + length (sequence n) +
          steps_length (path_steps vg (ca + length (sequence n)) mid)"
        using p(3) ca by simp
    qed
  next
    case False
    with Cons.prems(1) obtain n where n: "get_node vg (position_node_id m) = Some n"
      and fa: "first_placement vg (c + length (sequence n)) path a = Some (ca, ra)"
      by (auto split: option.splits)
    from first_placement_ge [OF fa] have "c \<le> ca" by simp
    with Cons.prems(2,3) have nb: "position_node_id m \<noteq> b" by auto
    with Cons.prems(2) n
    have fb: "first_placement vg (c + length (sequence n)) path b = Some (cb, rb)"
      by simp
    from Cons.IH [OF fa fb Cons.prems(3)]
    obtain pre m' mid post na where p: "path = pre @ m' # mid @ post" "position_node_id m' = a"
      "get_node vg a = Some na" "path_in_graph vg pre" "path_in_graph vg mid"
      "ca = c + length (sequence n) + steps_length (path_steps vg (c + length (sequence n)) pre)"
      "cb = ca + length (sequence na) +
          steps_length (path_steps vg (ca + length (sequence na)) mid)"
      by blast
    show ?thesis
    proof (intro exI conjI)
      show "m # path = (m # pre) @ m' # mid @ post" using p(1) by simp
      show "position_node_id m' = a" by (rule p(2))
      show "get_node vg a = Some na" by (rule p(3))
      show "path_in_graph vg (m # pre)" using p(4) n by (simp add: path_in_graph_def)
      show "path_in_graph vg mid" by (rule p(5))
      show "ca = c + steps_length (path_steps vg c (m # pre))"
        using p(6) n by (simp add: steps_length_Cons)
      show "cb = ca + length (sequence na) +
          steps_length (path_steps vg (ca + length (sequence na)) mid)"
        by (rule p(7))
    qed
  qed
qed

subsection \<open>The coordinate index at the steps of the path\<close>

lemma step_at_ge: "step_at vg c path k = Some t \<Longrightarrow> c \<le> k"
proof (induction path arbitrary: c t)
  case Nil
  then show ?case by simp
next
  case (Cons m path)
  from Cons.prems obtain n where n: "get_node vg (position_node_id m) = Some n"
    by (cases "get_node vg (position_node_id m)") auto
  show ?case
  proof (cases "step_at vg (c + length (sequence n)) path k")
    case None
    with Cons.prems n show ?thesis by (simp split: if_splits)
  next
    case (Some t')
    from Cons.IH [OF Some] show ?thesis by simp
  qed
qed

text \<open>
  A step over a node that is not empty is the last step that starts at its coordinate:
  the index holds it there, whatever empty nodes the path has.
\<close>

lemma step_at_step:
  assumes "(c', nd) \<in> set (path_steps vg c path)"
    and "sequence nd \<noteq> []"
  shows "\<exists>t. step_at vg c path c' = Some t \<and> get_node vg (node t) = Some nd"
  using assms(1)
proof (induction path arbitrary: c)
  case Nil
  then show ?case by simp
next
  case (Cons m path)
  from Cons.prems obtain n where n: "get_node vg (position_node_id m) = Some n"
    by (cases "get_node vg (position_node_id m)") auto
  show ?case
  proof (cases "(c', nd) \<in> set (path_steps vg (c + length (sequence n)) path)")
    case True
    from Cons.IH [OF True] n show ?thesis by auto
  next
    case False
    with Cons.prems n have e: "c' = c" "nd = n" by auto
    have "step_at vg (c + length (sequence n)) path c = None"
    proof (cases "step_at vg (c + length (sequence n)) path c")
      case None
      then show ?thesis .
    next
      case (Some t)
      from step_at_ge [OF Some] assms(2) e show ?thesis by simp
    qed
    with e n show ?thesis by simp
  qed
qed

lemma trace_reference_index:
  assumes "get_path vg refPathName = Some path"
    and "trace_reference vg refPathName = Inr st"
    and "(c', nd) \<in> set (path_steps vg 0 path)"
    and "sequence nd \<noteq> []"
  shows "\<exists>t. lower_bound (nodesByReference st) c' = Some t \<and> get_node vg (node t) = Some nd"
proof -
  from assms(1,2) have tl: "trace_loop vg trace_init path = Inr st"
    by (simp add: trace_reference_def)
  from step_at_step [OF assms(3,4)] obtain t where t: "step_at vg 0 path c' = Some t"
    "get_node vg (node t) = Some nd"
    by blast
  from trace_loop_index [OF tl, of c'] t(1) have "nodesByReference st c' = Some t"
    by (simp add: trace_init_def)
  with t(2) show ?thesis by (simp add: lower_bound_hit)
qed

subsection \<open>The scan over a stretch of the path\<close>

text \<open>
  The scan goes from one step that is not empty to the next; an empty step of the stretch
  is never looked up and adds nothing.
\<close>

lemma ref_path_loop_steps:
  assumes "\<forall>(c', nd) \<in> set (path_steps vg c mid).
             sequence nd \<noteq> [] \<longrightarrow>
             length (sequence nd) \<le> length (calls (node_id nd)) \<and>
             (\<exists>t. lower_bound (nodesByReference st) c' = Some t \<and> get_node vg (node t) = Some nd)"
    and "path_in_graph vg mid"
  shows "ref_path_loop vg st calls (c + steps_length (path_steps vg c mid)) c b =
         Some (Inr (b \<or> steps_observed calls (path_steps vg c mid)))"
  using assms
proof (induction mid arbitrary: c b)
  case Nil
  then show ?case by (simp add: steps_length_def steps_observed_def ref_path_loop_done)
next
  case (Cons m mid)
  from Cons.prems(2) obtain n where n: "get_node vg (position_node_id m) = Some n"
    and ig: "path_in_graph vg mid"
    by (auto simp: path_in_graph_def)
  let ?c1 = "c + length (sequence n)"
  from Cons.prems(1) n
  have r: "\<forall>(c', nd) \<in> set (path_steps vg ?c1 mid).
             sequence nd \<noteq> [] \<longrightarrow>
             length (sequence nd) \<le> length (calls (node_id nd)) \<and>
             (\<exists>t. lower_bound (nodesByReference st) c' = Some t \<and> get_node vg (node t) = Some nd)"
    by auto
  show ?case
  proof (cases "sequence n = []")
    case True
    from Cons.IH [OF r ig, of b] True n show ?thesis
      by (simp add: steps_length_Cons steps_observed_def)
  next
    case ne: False
    with Cons.prems(1) n have cov: "length (sequence n) \<le> length (calls (node_id n))"
      by auto
    from Cons.prems(1) n ne obtain t where t: "lower_bound (nodesByReference st) c = Some t"
      "get_node vg (node t) = Some n"
      by auto
    define E where "E = c + steps_length (path_steps vg c (m # mid))"
    have lt: "c < E"
      using n ne by (simp add: E_def steps_length_Cons)
    have tot: "E = ?c1 + steps_length (path_steps vg ?c1 mid)"
      using n by (simp add: E_def steps_length_Cons)
    have node: "ref_node_loop calls (node_id n) [0 ..< length (sequence n)] b =
        Inr (b \<or> list_ex (base_observed calls n) [0 ..< length (sequence n)])"
      using cov by (simp add: ref_node_loop_result)
    have "ref_path_loop vg st calls E c b =
        ref_path_loop vg st calls E ?c1
          (b \<or> list_ex (base_observed calls n) [0 ..< length (sequence n)])"
      by (subst ref_path_loop.simps) (simp add: lt t node)
    also have "\<dots> = Some (Inr ((b \<or> list_ex (base_observed calls n) [0 ..< length (sequence n)]) \<or>
        steps_observed calls (path_steps vg ?c1 mid)))"
      unfolding tot by (rule Cons.IH [OF r ig])
    finally show ?thesis
      using n by (simp add: steps_observed_def E_def)
  qed
qed

subsection \<open>Presence of the node and the observed interval\<close>

lemma presence_loop_result:
  "presence_loop v (f, p, m) = (f', p', m') \<Longrightarrow>
   f' = (f \<and> (\<forall>call \<in> set v. graphBasePresent call)) \<and>
   p' = (p \<or> (\<exists>call \<in> set v. graphBasePresent call)) \<and>
   (0 < m') = (0 < m \<or> (\<exists>call \<in> set v. alts call \<noteq> []))"
proof (induction v arbitrary: f p m)
  case Nil
  then show ?case by simp
next
  case (Cons call v)
  from Cons.IH [OF Cons.prems [simplified]] show ?case
    by (auto simp: numberOfAlts_def max_def split: if_splits)
qed

lemma presence_all_present:
  assumes "v \<noteq> []" "\<forall>call \<in> set v. graphBasePresent call"
  shows "\<exists>m. presence v = (True, True, m) \<and> (0 < m) = (\<exists>call \<in> set v. alts call \<noteq> [])"
proof -
  obtain f p m where r: "presence_loop v (True, False, 0) = (f, p, m)"
    by (cases "presence_loop v (True, False, 0)") auto
  from presence_loop_result [OF r] assms have "f" "p" "(0 < m) = (\<exists>call \<in> set v. alts call \<noteq> [])"
    by (auto simp: neq_Nil_conv)
  with r show ?thesis by (simp add: presence_def)
qed

lemma path_sequence_length:
  "length (path_sequence vg path) = steps_length (path_steps vg 0 path)"
  by (simp add: path_sequence_def steps_length_def length_concat case_prod_unfold o_def)

lemma interval_observed_empty:
  "\<not> interval_observed vg calls path c c"
  by (auto simp: interval_observed_def list_ex_iff)

lemma interval_observed_split:
  assumes "\<forall>(c, n) \<in> set before. c < a \<or> sequence n = []"
    and "\<forall>(c, n) \<in> set within. (a \<le> c \<and> c < b) \<or> sequence n = []"
    and "\<forall>(c, n) \<in> set after. b \<le> c"
    and "path_steps vg 0 path = before @ within @ after"
  shows "interval_observed vg calls path a b = steps_observed calls within"
proof -
  let ?obs = "\<lambda>n. list_ex (base_observed calls n) [0 ..< length (sequence n)]"
  define P where "P = (\<lambda>x. a \<le> fst x \<and> fst x < b \<and> ?obs (snd x))"
  have 1: "\<not> P x" if "x \<in> set before" for x
    using assms(1) that by (cases x) (fastforce simp: P_def)
  have 2: "P x = ?obs (snd x)" if "x \<in> set within" for x
    using assms(2) that by (cases x) (fastforce simp: P_def)
  have 3: "\<not> P x" if "x \<in> set after" for x
    using assms(3) that by (cases x) (fastforce simp: P_def)
  have "interval_observed vg calls path a b = (\<exists>x \<in> set before \<union> set within \<union> set after. P x)"
    by (simp add: interval_observed_def assms(4) list_ex_iff case_prod_unfold P_def Un_assoc)
  also have "\<dots> = (\<exists>x \<in> set within. ?obs (snd x))"
    using 1 2 3 by blast
  also have "\<dots> = steps_observed calls within"
    by (simp add: steps_observed_def list_ex_iff case_prod_unfold)
  finally show ?thesis .
qed

lemma zygosity_scan:
  assumes gp: "get_path vg refPathName = Some path"
    and tr: "trace_reference vg refPathName = Inr st"
    and pa: "referencePositionAndOrientation st a = Some pA"
    and pb: "referencePositionAndOrientation st b = Some pB"
    and lt: "fst pA < fst pB"
    and ga: "get_node vg a = Some na"
    and cov: "\<forall>(c, r) \<in> set (path_steps vg 0 path).
                fst pA + length (sequence na) \<le> c \<and> c < fst pB \<longrightarrow>
                length (sequence r) \<le> length (calls (node_id r))"
  shows "ref_path_loop vg st calls (fst pB) (fst pA + length (sequence na)) False =
           Some (Inr (interval_observed vg calls path (fst pA + length (sequence na)) (fst pB)))"
    and "fst pB \<le> length (refSeq st)"
proof -
  let ?start = "fst pA + length (sequence na)"
  from gp tr have tl: "trace_loop vg trace_init path = Inr st"
    by (simp add: trace_reference_def)
  from trace_loop_placement [OF tl] pa pb
  have fa: "first_placement vg 0 path a = Some (fst pA, snd pA)"
    and fb: "first_placement vg 0 path b = Some (fst pB, snd pB)"
    by (simp_all add: trace_init_def)
  from two_placements [OF fa fb lt] ga
  obtain pre m mid post where path: "path = pre @ m # mid @ post"
    and m: "position_node_id m = a"
    and ipre: "path_in_graph vg pre" and imid: "path_in_graph vg mid"
    and ca: "fst pA = steps_length (path_steps vg 0 pre)"
    and cb: "fst pB = ?start + steps_length (path_steps vg ?start mid)"
    by auto
  let ?S1 = "path_steps vg 0 (pre @ [m])"
  let ?S2 = "path_steps vg ?start mid"
  let ?S3 = "path_steps vg (fst pB) post"
  have s1: "?S1 = path_steps vg 0 pre @ [(fst pA, na)]"
    using path_steps_append [OF ipre, of 0 "[m]"] m ga ca by simp
  have l1: "steps_length ?S1 = ?start"
    by (simp add: s1 steps_length_append steps_length_Cons ca steps_length_def)
  have i1: "path_in_graph vg (pre @ [m])"
    using ipre m ga by (simp add: path_in_graph_def)
  have "path_steps vg 0 ((pre @ [m]) @ (mid @ post)) =
        ?S1 @ path_steps vg (0 + steps_length ?S1) (mid @ post)"
    by (rule path_steps_append [OF i1])
  also have "path_steps vg (0 + steps_length ?S1) (mid @ post) = ?S2 @ ?S3"
    using path_steps_append [OF imid, of ?start post] cb by (simp add: l1)
  finally have split: "path_steps vg 0 path = ?S1 @ ?S2 @ ?S3"
    by (simp add: path)
  have b1: "\<forall>(c, n) \<in> set ?S1. c < ?start \<or> sequence n = []"
  proof (clarify)
    fix c n assume in1: "(c, n) \<in> set ?S1" and "sequence n \<noteq> []"
    from path_steps_bounds [OF in1] l1 have "c + length (sequence n) \<le> ?start" by simp
    with \<open>sequence n \<noteq> []\<close> show "c < ?start" by (cases "sequence n") simp_all
  qed
  have b2: "\<forall>(c, n) \<in> set ?S2. (?start \<le> c \<and> c < fst pB) \<or> sequence n = []"
  proof (clarify)
    fix c n assume in2: "(c, n) \<in> set ?S2" and "sequence n \<noteq> []"
    from path_steps_bounds [OF in2] cb
    have "?start \<le> c" "c + length (sequence n) \<le> fst pB" by simp_all
    with \<open>sequence n \<noteq> []\<close> show "?start \<le> c \<and> c < fst pB" by (cases "sequence n") simp_all
  qed
  have b3: "\<forall>(c, n) \<in> set ?S3. fst pB \<le> c"
    using path_steps_bounds [of _ _ vg "fst pB" post] by auto
  have obs: "interval_observed vg calls path ?start (fst pB) = steps_observed calls ?S2"
    by (rule interval_observed_split [OF b1 b2 b3 split])
  have hyp: "\<forall>(c', nd) \<in> set ?S2.
             sequence nd \<noteq> [] \<longrightarrow>
             length (sequence nd) \<le> length (calls (node_id nd)) \<and>
             (\<exists>t. lower_bound (nodesByReference st) c' = Some t \<and> get_node vg (node t) = Some nd)"
  proof (clarify)
    fix c' nd assume in2: "(c', nd) \<in> set ?S2" and n1: "sequence nd \<noteq> []"
    with split have inp: "(c', nd) \<in> set (path_steps vg 0 path)" by simp
    from b2 in2 n1 have "?start \<le> c' \<and> c' < fst pB" by auto
    with cov inp have n2: "length (sequence nd) \<le> length (calls (node_id nd))" by auto
    from trace_reference_index [OF gp tr inp n1]
    have n3: "\<exists>t. lower_bound (nodesByReference st) c' = Some t \<and> get_node vg (node t) = Some nd" .
    from n2 n3
    show "length (sequence nd) \<le> length (calls (node_id nd)) \<and>
             (\<exists>t. lower_bound (nodesByReference st) c' = Some t \<and> get_node vg (node t) = Some nd)"
      by blast
  qed
  from ref_path_loop_steps [OF hyp imid, where b = False] cb obs
  show "ref_path_loop vg st calls (fst pB) ?start False =
           Some (Inr (interval_observed vg calls path ?start (fst pB)))"
    by simp
  from trace_loop_refSeq [OF tl]
  have "length (refSeq st) = steps_length (path_steps vg 0 path)"
    by (simp add: trace_init_def path_sequence_length)
  also have "\<dots> = steps_length ?S1 + steps_length ?S2 + steps_length ?S3"
    by (simp add: split steps_length_append)
  finally show "fst pB \<le> length (refSeq st)"
    using l1 cb by simp
qed

subsection \<open>The emitted structural variant\<close>

text \<open>
  Claim C1, as amended. Let the tables come from tracing the reference path. Take a
  non-reference node that passes the anchoring, orientation and duplication checks, whose
  call vector is not empty and has every base called present, and let the call table hold
  a call for every base of every path step that starts inside the replaced reference
  interval. Then the body writes
  exactly one variant. Its genotype is 1/0 if some base of a step inside the interval is
  called present or carries an alt, and 1/1 otherwise; for an empty interval (a pure
  insertion) it is 1/1. Its alt allele is the node's own sequence, reverse-complemented when
  the node's normalised orientation is reverse, and, for an empty interval, preceded by
  the reference base in front of the interval, which is then also the reference allele;
  otherwise the reference allele is the reference sequence over the interval. The one
  line that may be logged says that the node has additional novel alts.
\<close>

theorem structural_variant_emitted:
  assumes gp: "get_path vg refPathName = Some path"
    and tr: "trace_reference vg refPathName = Inr st"
    and nr: "referencePositionAndOrientation st n = None"
    and gn: "get_node vg n = Some nd"
    and fi: "leftmost (referencePositionAndOrientation st) (nodes_prev vg (forward_traversal n)) =
               Some foundIn"
    and fo: "leftmost (referencePositionAndOrientation st) (nodes_next vg (forward_traversal n)) =
               Some foundOut"
    and pi: "referencePositionAndOrientation st (node foundIn) = Some placementIn"
    and po: "referencePositionAndOrientation st (node foundOut) = Some placementOut"
    and ori: "(backward foundIn = snd placementIn) = (backward foundOut = snd placementOut)"
    and fw: "forward = (backward foundIn = snd placementIn)"
    and ia: "inAnchor = (if forward then foundIn else foundOut)"
    and ip: "inPlacement = (if forward then placementIn else placementOut)"
    and op: "outPlacement = (if forward then placementOut else placementIn)"
    and dup: "fst inPlacement < fst outPlacement"
    and gi: "get_node vg (node inAnchor) = Some inNode"
    and st: "referenceIntervalStart = fst inPlacement + length (sequence inNode)"
    and pe: "referenceIntervalPastEnd = fst outPlacement"
    and present: "calls n \<noteq> []" "\<forall>call \<in> set (calls n). graphBasePresent call"
    and cov: "\<forall>(c, r) \<in> set (path_steps vg 0 path).
                referenceIntervalStart \<le> c \<and> c < referenceIntervalPastEnd \<longrightarrow>
                length (sequence r) \<le> length (calls (node_id r))"
  shows "bubble_node vg st calls n =
    Some (Inr (if \<exists>call \<in> set (calls n). alts call \<noteq> [] then [NovelAlts n] else [],
       [\<lparr>position = (if referenceIntervalStart = referenceIntervalPastEnd
                      then referenceIntervalStart - 1 else referenceIntervalStart) + 1,
         ref = (if referenceIntervalStart = referenceIntervalPastEnd
                then [refSeq st ! (referenceIntervalStart - 1)]
                else take (referenceIntervalPastEnd - referenceIntervalStart)
                       (drop referenceIntervalStart (refSeq st))),
         alt = [(if referenceIntervalStart = referenceIntervalPastEnd
                 then [refSeq st ! (referenceIntervalStart - 1)] else []) @
                (if forward then sequence nd else reverse_complement vg (sequence nd))],
         genotype = (if interval_observed vg calls path referenceIntervalStart
                          referenceIntervalPastEnd then ''1/0'' else ''1/1''),
         quality = 0\<rparr>])) \<and>
    (referenceIntervalStart = referenceIntervalPastEnd \<longrightarrow>
       \<not> interval_observed vg calls path referenceIntervalStart referenceIntervalPastEnd)"
proof -
  let ?s = referenceIntervalStart and ?e = referenceIntervalPastEnd
  define altNode where
    "altNode = (if forward then forward_traversal n else (forward_traversal n)\<lparr>backward := True\<rparr>)"
  define outAnchor where "outAnchor = (if forward then foundOut else foundIn)"
  have an: "node altNode = n" "backward altNode = (\<not> forward)"
    by (simp_all add: altNode_def forward_traversal_simps)
  have pin: "referencePositionAndOrientation st (node inAnchor) = Some inPlacement"
    and pout: "referencePositionAndOrientation st (node outAnchor) = Some outPlacement"
    using pi po by (simp_all add: ia ip op outAnchor_def)
  \<comment> \<open>the anchoring and orientation checks pass\<close>
  have b1: "bubble_node vg st calls n = oriented_node vg st calls altNode inAnchor outAnchor"
    using nr fi fo pi po ori fw
    by (simp add: bubble_node_def anchored_node_def Let_def altNode_def ia outAnchor_def)
  \<comment> \<open>the duplication check passes and the interval is in order\<close>
  from trace_reference_apart [OF tr pin pout dup] gi
  have le: "?s \<le> ?e" by (simp add: st pe)
  have b2: "oriented_node vg st calls altNode inAnchor outAnchor =
            placed_node vg st calls altNode ?s ?e"
    using pin pout dup gi le by (simp add: oriented_node_def Let_def st pe)
  \<comment> \<open>the node is present throughout\<close>
  from presence_all_present [OF present]
  obtain m where pr: "presence (calls n) = (True, True, m)"
    and m: "(0 < m) = (\<exists>call \<in> set (calls n). alts call \<noteq> [])"
    by blast
  \<comment> \<open>the scan of the interval\<close>
  have cov': "\<forall>(c, r) \<in> set (path_steps vg 0 path).
                fst inPlacement + length (sequence inNode) \<le> c \<and> c < fst outPlacement \<longrightarrow>
                length (sequence r) \<le> length (calls (node_id r))"
    using cov by (simp add: st pe)
  from zygosity_scan [OF gp tr pin pout dup gi cov']
  have scan: "ref_path_loop vg st calls ?e ?s False =
           Some (Inr (interval_observed vg calls path ?s ?e))"
    and el: "?e \<le> length (refSeq st)"
    by (simp_all add: st pe)
  \<comment> \<open>the alleles\<close>
  let ?v = "\<lparr>position = (if ?s = ?e then ?s - 1 else ?s) + 1,
         ref = (if ?s = ?e then [refSeq st ! (?s - 1)]
                else take (?e - ?s) (drop ?s (refSeq st))),
         alt = [(if ?s = ?e then [refSeq st ! (?s - 1)] else []) @
                (if forward then sequence nd else reverse_complement vg (sequence nd))],
         genotype = (if interval_observed vg calls path ?s ?e then ''1/0'' else ''1/1''),
         quality = 0\<rparr>"
  have sv: "structural_variant vg st altNode (sequence nd) ?s (?e - ?s)
              (interval_observed vg calls path ?s ?e) = Inr ?v"
  proof (cases "?s = ?e")
    case True
    from dup have "0 < ?e" by (simp add: pe)
    with True el have "?s - 1 < length (refSeq st)" "?s \<noteq> 0" by simp_all
    then have "string_at (refSeq st) (?s - 1) = Some (refSeq st ! (?s - 1))"
      by (simp add: string_at_def)
    with True el \<open>?s \<noteq> 0\<close> show ?thesis
      by (simp add: structural_variant_def an Let_def)
  next
    case False
    with le el have "take (?e - ?s) (drop ?s (refSeq st)) \<noteq> []" "?s \<le> length (refSeq st)"
      by auto
    with False show ?thesis
      by (simp add: structural_variant_def an Let_def)
  qed
  have b3: "placed_node vg st calls altNode ?s ?e =
      Some (Inr (if \<exists>call \<in> set (calls n). alts call \<noteq> [] then [NovelAlts n] else [], [?v]))"
    using pr m scan gn sv by (simp add: placed_node_def an Let_def)
  have "?s = ?e \<longrightarrow> \<not> interval_observed vg calls path ?s ?e"
    by (simp add: interval_observed_empty)
  with b1 b2 b3 show ?thesis by simp
qed

lemma example_leftmost_4:
  "leftmost (referencePositionAndOrientation example_trace)
     (nodes_prev example_graph (forward_traversal 4)) = Some (forward_traversal 1)"
  "leftmost (referencePositionAndOrientation example_trace)
     (nodes_next example_graph (forward_traversal 4)) = Some (forward_traversal 3)"
  by (simp_all add: example_graph_def forward_traversal_simps leftmost_single example_placement
      small_SIZE_MAX)

lemma example_interval_5_6:
  "\<not> interval_observed example_graph example_calls example_path 5 6"
  by (simp add: interval_observed_def example_path_steps base_observed_def call_at_def
      example_calls_def BaseCall_default_def)

text \<open>
  On the example, node 4 (GG) is anchored on node 1 and node 3 and replaces the interval
  from 5 to 6, the C of node 2, which is called absent: one variant at position 6, with the
  reference allele C, the alt allele GG and the genotype 1/1.
\<close>

theorem structural_variant_emitted_witness:
  "get_path example_graph ''ref'' = Some example_path \<and>
   trace_reference example_graph ''ref'' = Inr example_trace \<and>
   referencePositionAndOrientation example_trace 4 = None \<and>
   get_node example_graph 4 = Some \<lparr>node_id = 4, sequence = ''GG''\<rparr> \<and>
   example_calls 4 = [\<lparr>graphBasePresent = True, alts = []\<rparr>, \<lparr>graphBasePresent = True, alts = []\<rparr>] \<and>
   \<not> interval_observed example_graph example_calls example_path 5 6 \<and>
   take (6 - 5) (drop 5 (refSeq example_trace)) = ''C'' \<and>
   bubble_node example_graph example_trace example_calls 4 =
     Some (Inr ([], [\<lparr>position = 6, ref = ''C'', alt = [''GG''], genotype = ''1/1'',
                     quality = 0\<rparr>]))"
proof -
  have p: "referencePositionAndOrientation example_trace (node (forward_traversal 1)) = Some (0, False)"
    "referencePositionAndOrientation example_trace (node (forward_traversal 3)) = Some (6, False)"
    by (simp_all add: forward_traversal_simps example_placement)
  have ori: "(backward (forward_traversal 1) = snd (0::nat, False)) =
             (backward (forward_traversal 3) = snd (6::nat, False))"
    by (simp add: forward_traversal_simps)
  have fw: "True = (backward (forward_traversal 1) = snd (0::nat, False))"
    by (simp add: forward_traversal_simps)
  have ia: "forward_traversal 1 = (if True then forward_traversal 1 else forward_traversal 3)"
    and ip: "(0::nat, False) = (if True then (0, False) else (6, False))"
    and op: "(6::nat, False) = (if True then (6, False) else (0, False))"
    by simp_all
  have dup: "fst (0::nat, False) < fst (6::nat, False)" by simp
  have gi: "get_node example_graph (node (forward_traversal 1)) =
      Some \<lparr>node_id = 1, sequence = ''ACGCA''\<rparr>"
    by (simp add: forward_traversal_simps example_get_node)
  have st: "(5::nat) = fst (0::nat, False) + length (sequence \<lparr>node_id = 1, sequence = ''ACGCA''\<rparr>)"
    and pe: "(6::nat) = fst (6::nat, False)"
    by simp_all
  have c4: "example_calls 4 = [\<lparr>graphBasePresent = True, alts = []\<rparr>, \<lparr>graphBasePresent = True, alts = []\<rparr>]"
    by (simp add: example_calls_def)
  have pr: "example_calls 4 \<noteq> []" "\<forall>call \<in> set (example_calls 4). graphBasePresent call"
    by (simp_all add: c4)
  have cov: "\<forall>(c, r) \<in> set (path_steps example_graph 0 example_path).
                5 \<le> c \<and> c < 6 \<longrightarrow> length (sequence r) \<le> length (example_calls (node_id r))"
    by (simp add: example_path_steps example_calls_def)
  have r: "take (6 - 5) (drop 5 (refSeq example_trace)) = ''C''"
    by (simp add: example_trace_def)
  show ?thesis
    using structural_variant_emitted [OF example_get_path example_trace_reference
        example_placement(4) example_get_node(4) example_leftmost_4 p ori fw
        ia ip op dup gi st pe pr cov]
      example_interval_5_6 r c4
    by (simp add: example_get_path example_trace_reference example_placement example_get_node)
qed

text \<open>
  Claim C1 as stated fails on the insertion of the example: node 5 (TT) passes the three
  checks and is present throughout, and the alt allele of its variant is ATT, not the node's
  own sequence TT.
\<close>

theorem insertion_alt_has_anchor_base:
  "trace_reference example_graph ''ref'' = Inr example_trace \<and>
   referencePositionAndOrientation example_trace 5 = None \<and>
   get_node example_graph 5 = Some \<lparr>node_id = 5, sequence = ''TT''\<rparr> \<and>
   presence (example_calls 5) = (True, True, 0) \<and>
   bubble_node example_graph example_trace example_calls 5 =
     Some (Inr ([], [\<lparr>position = 5, ref = ''A'', alt = [''ATT''], genotype = ''1/1'',
                     quality = 0\<rparr>])) \<and>
   ''ATT'' \<noteq> ''TT''"
proof -
  have "presence (example_calls 5) = (True, True, 0)"
    by (simp add: presence_def example_calls_def numberOfAlts_def)
  then show ?thesis
    by (simp add: example_trace_reference example_placement example_get_node example_bubble_5)
qed

end
